theory Spec2Isabelle
  imports Main "HOL-Library.Word" "HOL-Library.Multiset"
begin

unbundle bit_operations_syntax

section \<open>Memory, pointers and machine integers\<close>

text \<open>
  The array handed to \<open>blipsort\<close> is a list of \<open>w\<close>-bit words, compared as signed
  values (\<open><s\<close>, \<open>\<le>s\<close>): \<open>w\<close> is 8, 16, 32 or 64 for the four instantiations of the
  template. A pointer \<open>E*\<close> into the array is the integer offset from its base, so that
  \<open>low - 1\<close> and \<open>high + 1\<close> exist as pointers. Dereferencing a pointer outside
  \<open>[0, length a)\<close> is undefined behaviour in the source; here it is the error
  \<open>OutOfBounds\<close>, and every function that touches memory returns \<open>err + result\<close>.
  \<open>uint32_t\<close> values are integers reduced by \<open>u32\<close>; \<open>x >> k\<close> on them is
  \<open>x div 2 ^ k\<close>.
\<close>

datatype err = OutOfBounds | AssertionFailed

definition inb :: "'a list \<Rightarrow> int \<Rightarrow> bool" where
  "inb a i = (0 \<le> i \<and> i < int (length a))"

definition rd :: "'a list \<Rightarrow> int \<Rightarrow> 'a" where
  "rd a i = a ! nat i"

definition wr :: "'a list \<Rightarrow> int \<Rightarrow> 'a \<Rightarrow> 'a list" where
  "wr a i v = a[nat i := v]"

definition u32 :: "int \<Rightarrow> int" where
  "u32 i = i mod 4294967296"

definition s32 :: "int \<Rightarrow> int" where
  "s32 i = (i + 2147483648) mod 4294967296 - 2147483648"

definition InsertionThreshold :: int where
  "InsertionThreshold = 88"

definition AscendingThreshold :: int where
  "AscendingThreshold = 8"

definition LargeDataThreshold :: int where
  "LargeDataThreshold = 128"

section \<open>bitScanRev\<close>

definition DeBruijn64 :: "64 word" where
  "DeBruijn64 = 285870213051386505"

definition DeBruijnTableF :: "nat list" where
  "DeBruijnTableF =
    [0, 47, 1, 56, 48, 27, 2, 60,
     57, 49, 41, 37, 28, 16, 3, 61,
     54, 58, 35, 52, 50, 42, 21, 44,
     38, 32, 29, 23, 17, 11, 4, 62,
     46, 55, 26, 59, 40, 36, 15, 53,
     34, 51, 20, 43, 31, 22, 10, 45,
     25, 39, 14, 33, 19, 30, 9, 24,
     13, 18, 8, 12, 7, 6, 5, 63]"

definition parallelPrefixFill :: "32 word \<Rightarrow> 32 word" where
  "parallelPrefixFill x0 =
    (let x1 = x0 OR drop_bit 1 x0;
         x2 = x1 OR drop_bit 2 x1;
         x3 = x2 OR drop_bit 4 x2;
         x4 = x3 OR drop_bit 8 x3
     in x4 OR drop_bit 16 x4)"

text \<open>\<open>assert(l != 0)\<close> is the error \<open>AssertionFailed\<close>; the product is taken in 64 bits.\<close>

definition bitScanRev :: "32 word \<Rightarrow> err + int" where
  "bitScanRev l =
    (if l = 0 then Inl AssertionFailed
     else Inr (int (DeBruijnTableF !
       unat (drop_bit 58 ((ucast (parallelPrefixFill l) :: 64 word) * DeBruijn64)))))"

section \<open>swap\<close>

definition swap :: "'a list \<Rightarrow> int \<Rightarrow> int \<Rightarrow> err + 'a list" where
  "swap a i j =
    (if inb a i \<and> inb a j
     then (let el = rd a i; a1 = wr a i (rd a j) in Inr (wr a1 j el))
     else Inl OutOfBounds)"

section \<open>Heap sort\<close>

text \<open>
  \<open>siftDown(a, i, size)\<close>: \<open>b\<close> is the base pointer \<open>a\<close> of the sub-array. The loop
  variable \<open>x\<close> and the child indices are \<open>uint32_t\<close>; the loop keeps \<open>n\<close> and \<open>o\<close>
  (here \<open>o1\<close>) as the constants the source computes from \<open>size\<close> (here \<open>sz\<close>).
\<close>

function siftDown_loop ::
  "'a::len word list \<Rightarrow> int \<Rightarrow> int \<Rightarrow> 'a word \<Rightarrow> int \<Rightarrow> err + 'a word list" where
  "siftDown_loop a b sz z x =
    (let n = u32 sz; o1 = n div 2 in
     if u32 x < o1 then
       (let l = u32 (2 * u32 x + 1); r = u32 (l + 1) in
        if \<not> inb a (b + l) then Inl OutOfBounds
        else if r < n \<and> \<not> inb a (b + r) then Inl OutOfBounds
        else
          (let y = (if r < n \<and> rd a (b + l) <s rd a (b + r) then rd a (b + r) else rd a (b + l));
               l = (if r < n \<and> rd a (b + l) <s rd a (b + r) then r else l)
           in if y \<le>s z
              then (if inb a (b + u32 x) then Inr (wr a (b + u32 x) z) else Inl OutOfBounds)
              else if \<not> inb a (b + u32 x) then Inl OutOfBounds
              else siftDown_loop (wr a (b + u32 x) y) b sz z l))
     else (if inb a (b + u32 x) then Inr (wr a (b + u32 x) z) else Inl OutOfBounds))"
  by pat_completeness auto
termination
proof (relation "measure (\<lambda>(a, b, sz, z, x). nat (u32 sz div 2 - u32 x))", goal_cases)
  case 1
  show ?case by simp
next
  case (2 a b sz z x n o1 l r y l')
  have "0 \<le> u32 x" by (simp add: u32_def)
  moreover have "u32 sz < 4294967296" by (simp add: u32_def)
  ultimately have small: "2 * u32 x + 1 < 4294967296" "2 * u32 x + 2 < 4294967296"
    using 2(1,2,3) by auto
  have "l = 2 * u32 x + 1" using 2(4) small \<open>0 \<le> u32 x\<close> by (simp add: u32_def)
  moreover have "r = 2 * u32 x + 2" using 2(5) \<open>l = 2 * u32 x + 1\<close> small \<open>0 \<le> u32 x\<close>
    by (simp add: u32_def)
  moreover have "l' = l \<or> l' = r" using 2(9) by (auto split: if_splits)
  ultimately have "u32 x < l'" "0 \<le> l'" "l' < 4294967296"
    using \<open>0 \<le> u32 x\<close> small by auto
  then have "u32 l' = l'" by (simp add: u32_def)
  then show ?case using 2(1,2,3) \<open>u32 x < l'\<close> by auto
qed

definition siftDown :: "'a::len word list \<Rightarrow> int \<Rightarrow> int \<Rightarrow> int \<Rightarrow> err + 'a word list" where
  "siftDown a b i sz =
    (if inb a (b + i) then siftDown_loop a b sz (rd a (b + i)) (u32 i) else Inl OutOfBounds)"

function hSort_build :: "'a::len word list \<Rightarrow> int \<Rightarrow> int \<Rightarrow> int \<Rightarrow> err + 'a word list" where
  "hSort_build a l x i =
    (if 0 \<le> i
     then (case siftDown a l i x of
             Inl e \<Rightarrow> Inl e
           | Inr a1 \<Rightarrow> hSort_build a1 l x (i - 1))
     else Inr a)"
  by pat_completeness auto
termination
  by (relation "measure (\<lambda>(a, l, x, i). nat (i + 1))") auto

function hSort_extract :: "'a::len word list \<Rightarrow> int \<Rightarrow> int \<Rightarrow> int \<Rightarrow> err + 'a word list" where
  "hSort_extract a l r x =
    (let r1 = r - 1 in
     if l < r1 then
       (if inb a l \<and> inb a r1 then
          (let z = rd a l; a1 = wr a l (rd a r1) in
           case siftDown a1 l 0 (x - 1) of
             Inl e \<Rightarrow> Inl e
           | Inr a2 \<Rightarrow>
               if inb a2 r1 then hSort_extract (wr a2 r1 z) l r1 (x - 1) else Inl OutOfBounds)
        else Inl OutOfBounds)
     else Inr a)"
  by pat_completeness auto
termination
  by (relation "measure (\<lambda>(a, l, r, x). nat (r - l))") auto

definition hSort :: "'a::len word list \<Rightarrow> int \<Rightarrow> int \<Rightarrow> err + 'a word list" where
  "hSort a low high =
    (let r = high + 1; l = low; x = s32 (r - l) in
     case hSort_build a l x (x div 2) of
       Inl e \<Rightarrow> Inl e
     | Inr a1 \<Rightarrow> hSort_extract a1 l r x)"

text \<open>The least value of the element type: \<open>INT8_MIN\<close>, ..., \<open>INT64_MIN\<close>.\<close>

definition min_value :: "'a::len word" where
  "min_value = word_of_int (- (2 ^ (LENGTH('a) - 1)))"

section \<open>Insertion sort\<close>

text \<open>
  The guarded variant (\<open>leftmost\<close>). \<open>ins_guarded\<close> is the inner loop
  \<^verbatim>\<open>for (; j >= l && t < *j; --j) j[1] = *j;\<close> and returns the final \<open>j\<close>.
  \<open>moves\<close> is never negative, so the comparison with the unsigned constant
  \<open>AscendingThreshold\<close> is the comparison of integers.
\<close>

function ins_guarded ::
  "'a::len word list \<Rightarrow> int \<Rightarrow> 'a word \<Rightarrow> int \<Rightarrow> err + ('a word list \<times> int)" where
  "ins_guarded a l t j =
    (if l \<le> j then
       (if \<not> inb a j then Inl OutOfBounds
        else if t <s rd a j then
          (if inb a (j + 1) then ins_guarded (wr a (j + 1) (rd a j)) l t (j - 1)
           else Inl OutOfBounds)
        else Inr (a, j))
     else Inr (a, j))"
  by pat_completeness auto
termination
  by (relation "measure (\<lambda>(a, l, t, j). nat (j - l + 1))") auto

function iSort_guarded ::
  "bool \<Rightarrow> 'a::len word list \<Rightarrow> int \<Rightarrow> int \<Rightarrow> int \<Rightarrow> int
    \<Rightarrow> err + ('a word list \<times> int \<times> bool)" where
  "iSort_guarded bail a l r i moves =
    (if i \<le> r then
       (if \<not> inb a i then Inl OutOfBounds
        else
          (let t = rd a i in
           case ins_guarded a l t (i - 1) of
             Inl e \<Rightarrow> Inl e
           | Inr (a1, j) \<Rightarrow>
               if \<not> inb a1 (j + 1) then Inl OutOfBounds
               else
                 (let a2 = wr a1 (j + 1) t in
                  if bail then
                    (let moves1 = moves + ((i - 1) - j) in
                     if AscendingThreshold < moves1 then Inr (a2, moves1, False)
                     else iSort_guarded bail a2 l r (i + 1) moves1)
                  else iSort_guarded bail a2 l r (i + 1) moves)))
     else Inr (a, moves, True))"
  by pat_completeness auto
termination
  by (relation "measure (\<lambda>(bail, a, l, r, i, moves). nat (r - i + 1))") auto

text \<open>
  The pair variant. \<open>skip_ascending\<close> is
  \<^verbatim>\<open>do if (l++ >= r) return true; while (*l >= *(l - 1));\<close>: \<open>None\<close> is the return,
  \<open>Some l\<close> the pointer at which the loop is left.
\<close>

function skip_ascending :: "'a::len word list \<Rightarrow> int \<Rightarrow> int \<Rightarrow> err + int option" where
  "skip_ascending a l r =
    (if r \<le> l then Inr None
     else
       (let l1 = l + 1 in
        if \<not> (inb a l1 \<and> inb a (l1 - 1)) then Inl OutOfBounds
        else if rd a (l1 - 1) \<le>s rd a l1 then skip_ascending a l1 r
        else Inr (Some l1)))"
  by pat_completeness auto
termination
  by (relation "measure (\<lambda>(a, l, r). nat (r - l))") auto

text \<open>
  \<open>shift_by d a e i\<close> is \<^verbatim>\<open>while (e < *--i) i[d] = *i;\<close> (\<open>d\<close> is 2 or 1) and returns
  the final \<open>i\<close>. Nothing but the data stops the scan.
\<close>

function shift_by ::
  "int \<Rightarrow> 'a::len word list \<Rightarrow> 'a word \<Rightarrow> int \<Rightarrow> err + ('a word list \<times> int)" where
  "shift_by d a e i =
    (let i1 = i - 1 in
     if \<not> inb a i1 then Inl OutOfBounds
     else if e <s rd a i1 then
       (if inb a (i1 + d) then shift_by d (wr a (i1 + d) (rd a i1)) e i1 else Inl OutOfBounds)
     else Inr (a, i1))"
  by pat_completeness auto
termination
  by (relation "measure (\<lambda>(d, a, e, i). nat i)") (auto simp: inb_def)

text \<open>
  One pass of \<^verbatim>\<open>for (E *i = l; ++l <= r; i = ++l)\<close>: at the test \<open>i = l\<close>, so the loop
  state is \<open>i\<close> alone.
\<close>

function iSort_pairs ::
  "bool \<Rightarrow> 'a::len word list \<Rightarrow> int \<Rightarrow> int \<Rightarrow> int
    \<Rightarrow> err + ('a word list \<times> int \<times> bool)" where
  "iSort_pairs bail a r i moves =
    (let l = i + 1 in
     if l \<le> r then
       (if \<not> (inb a i \<and> inb a l) then Inl OutOfBounds
        else
          (let ex = (if rd a l <s rd a i then rd a l else rd a i);
               ey = (if rd a l <s rd a i then rd a i else rd a l);
               moves1 = (if rd a l <s rd a i then moves + 1 else moves)
           in case shift_by 2 a ey i of
                Inl e \<Rightarrow> Inl e
              | Inr (a1, i1) \<Rightarrow>
                  (let i2 = i1 + 1 in
                   if \<not> inb a1 (i2 + 1) then Inl OutOfBounds
                   else
                     (case shift_by 1 (wr a1 (i2 + 1) ey) ex i2 of
                        Inl e \<Rightarrow> Inl e
                      | Inr (a2, i3) \<Rightarrow>
                          if \<not> inb a2 (i3 + 1) then Inl OutOfBounds
                          else
                            (let a3 = wr a2 (i3 + 1) ex in
                             if bail then
                               (let moves2 = moves1 + ((l - 2) - i3) in
                                if AscendingThreshold < moves2 then Inr (a3, moves2, False)
                                else iSort_pairs bail a3 r (l + 1) moves2)
                             else iSort_pairs bail a3 r (l + 1) moves1)))))
     else Inr (a, moves, True))"
  by pat_completeness auto
termination
  by (relation "measure (\<lambda>(bail, a, r, i, moves). nat (r - i))") auto

text \<open>
  \<open>iSort_moves\<close> is \<open>iSort<E, Bail>\<close> with the final value of the local \<open>moves\<close>
  kept beside the returned flag; \<open>iSort\<close> is the function as the callers see it.
\<close>

definition iSort_moves ::
  "bool \<Rightarrow> bool \<Rightarrow> 'a::len word list \<Rightarrow> int \<Rightarrow> int \<Rightarrow> err + ('a word list \<times> int \<times> bool)" where
  "iSort_moves bail leftmost a low high =
    (if leftmost then iSort_guarded bail a low high (low + 1) 0
     else
       case skip_ascending a low high of
         Inl e \<Rightarrow> Inl e
       | Inr None \<Rightarrow> Inr (a, 0, True)
       | Inr (Some l) \<Rightarrow>
           (case iSort_pairs bail a high l 0 of
              Inl e \<Rightarrow> Inl e
            | Inr (a1, moves, ok) \<Rightarrow>
                if \<not> ok then Inr (a1, moves, False)
                else if \<not> inb a1 high then Inl OutOfBounds
                else
                  (let ez = rd a1 high in
                   (case shift_by 1 a1 ez high of
                      Inl e \<Rightarrow> Inl e
                    | Inr (a2, r) \<Rightarrow>
                        if inb a2 (r + 1) then Inr (wr a2 (r + 1) ez, moves, True)
                        else Inl OutOfBounds))))"

definition iSort ::
  "bool \<Rightarrow> bool \<Rightarrow> 'a::len word list \<Rightarrow> int \<Rightarrow> int \<Rightarrow> err + ('a word list \<times> bool)" where
  "iSort bail leftmost a low high =
    (case iSort_moves bail leftmost a low high of
       Inl e \<Rightarrow> Inl e
     | Inr (a1, moves, ok) \<Rightarrow> Inr (a1, ok))"

section \<open>scramble\<close>

definition scramble :: "'a list \<Rightarrow> int \<Rightarrow> int \<Rightarrow> int \<Rightarrow> err + 'a list" where
  "scramble a low high len =
    (if InsertionThreshold \<le> len then
       (let fourth = len div 4 in
        case swap a low (low + fourth) of
          Inl e \<Rightarrow> Inl e
        | Inr a1 \<Rightarrow>
           (case swap a1 high (high - fourth) of
              Inl e \<Rightarrow> Inl e
            | Inr a2 \<Rightarrow>
                if LargeDataThreshold < len then
                  (case swap a2 (low + 1) (low + (fourth + 1)) of
                     Inl e \<Rightarrow> Inl e
                   | Inr a3 \<Rightarrow>
                      (case swap a3 (low + 2) (low + (fourth + 2)) of
                         Inl e \<Rightarrow> Inl e
                       | Inr a4 \<Rightarrow>
                          (case swap a4 (high - 2) (high - (fourth + 2)) of
                             Inl e \<Rightarrow> Inl e
                           | Inr a5 \<Rightarrow> swap a5 (high - 1) (high - (fourth + 1)))))
                else Inr a2))
     else Inr a)"

section \<open>The quicksort driver\<close>

subsection \<open>Candidate pivots\<close>

text \<open>
  The four conditional blocks that insertion-sort the five candidates in place, in the
  order of the source: each moves the candidate \<open>e\<close> down while it is less than the
  next candidate to its left. \<open>move_down a hi lo e\<close> is the pair of assignments
  \<^verbatim>\<open>*hi = *lo; *lo = e;\<close> of which the blocks are made.
\<close>

definition move_down :: "'a list \<Rightarrow> int \<Rightarrow> int \<Rightarrow> 'a \<Rightarrow> 'a list" where
  "move_down a hi lo e = (let a1 = wr a hi (rd a lo) in wr a1 lo e)"

definition sort_sl :: "'a::len word list \<Rightarrow> int \<Rightarrow> int \<Rightarrow> 'a word list" where
  "sort_sl a cl sl =
    (if rd a sl <s rd a cl
     then (let e = rd a sl in move_down a sl cl e)
     else a)"

definition sort_mid :: "'a::len word list \<Rightarrow> int \<Rightarrow> int \<Rightarrow> int \<Rightarrow> 'a word list" where
  "sort_mid a cl sl mid =
    (if rd a mid <s rd a sl then
       (let e = rd a mid; a1 = move_down a mid sl e in
        if e <s rd a1 cl then move_down a1 sl cl e
        else a1)
     else a)"

definition sort_sr :: "'a::len word list \<Rightarrow> int \<Rightarrow> int \<Rightarrow> int \<Rightarrow> int \<Rightarrow> 'a word list" where
  "sort_sr a cl sl mid sr =
    (if rd a sr <s rd a mid then
       (let e = rd a sr; a1 = move_down a sr mid e in
        if e <s rd a1 sl then
          (let a2 = move_down a1 mid sl e in
           if e <s rd a2 cl then move_down a2 sl cl e
           else a2)
        else a1)
     else a)"

definition sort_cr ::
  "'a::len word list \<Rightarrow> int \<Rightarrow> int \<Rightarrow> int \<Rightarrow> int \<Rightarrow> int \<Rightarrow> 'a word list" where
  "sort_cr a cl sl mid sr cr =
    (if rd a cr <s rd a sr then
       (let e = rd a cr; a1 = move_down a cr sr e in
        if e <s rd a1 mid then
          (let a2 = move_down a1 sr mid e in
           if e <s rd a2 sl then
             (let a3 = move_down a2 mid sl e in
              if e <s rd a3 cl then move_down a3 sl cl e
              else a3)
           else a2)
        else a1)
     else a)"

definition sort_candidates ::
  "'a::len word list \<Rightarrow> int \<Rightarrow> int \<Rightarrow> int \<Rightarrow> int \<Rightarrow> int \<Rightarrow> 'a word list" where
  "sort_candidates a cl sl mid sr cr =
    sort_cr (sort_sr (sort_mid (sort_sl a cl sl) cl sl mid) cl sl mid sr) cl sl mid sr cr"

text \<open>The rotation \<^verbatim>\<open>while(u < mid) { E e = *u; *u++ = *q; *q-- = e; }\<close>.\<close>

function swap_rotate :: "'a list \<Rightarrow> int \<Rightarrow> int \<Rightarrow> int \<Rightarrow> err + 'a list" where
  "swap_rotate a u q mid =
    (if u < mid then
       (if inb a u \<and> inb a q then
          (let e = rd a u; a1 = wr a u (rd a q); a2 = wr a1 q e
           in swap_rotate a2 (u + 1) (q - 1) mid)
        else Inl OutOfBounds)
     else Inr a)"
  by pat_completeness auto
termination
  by (relation "measure (\<lambda>(a, u, q, mid). nat (mid - u))") auto

text \<open>
  The test of the six adjacent pairs reads all seven places (the operator is \<open>|\<close>, not
  \<open>||\<close>), then either sorts the candidates or rotates the interval.
\<close>

definition descending ::
  "'a::len word list \<Rightarrow> int \<Rightarrow> int \<Rightarrow> int \<Rightarrow> int \<Rightarrow> int \<Rightarrow> int \<Rightarrow> int \<Rightarrow> bool" where
  "descending a low high cl sl mid sr cr =
    (\<not> (rd a low \<le>s rd a cl \<or> rd a cl \<le>s rd a sl \<or> rd a sl \<le>s rd a mid \<or>
        rd a mid \<le>s rd a sr \<or> rd a sr \<le>s rd a cr \<or> rd a cr \<le>s rd a high))"

definition candidates ::
  "'a::len word list \<Rightarrow> int \<Rightarrow> int \<Rightarrow> int \<Rightarrow> int \<Rightarrow> int \<Rightarrow> int \<Rightarrow> int
    \<Rightarrow> err + 'a word list" where
  "candidates a low high cl sl mid sr cr =
    (if \<not> (inb a low \<and> inb a cl \<and> inb a sl \<and> inb a mid \<and> inb a sr \<and> inb a cr \<and> inb a high)
     then Inl OutOfBounds
     else if \<not> descending a low high cl sl mid sr cr then
       (let cl1 = (if rd a low <s rd a cl then low else cl);
            cr1 = (if rd a cr <s rd a high then high else cr)
        in Inr (sort_candidates a cl1 sl mid sr cr1))
     else swap_rotate a low high mid)"

subsection \<open>Scans and the gap loop\<close>

text \<open>
  \<open>scan_up c a l\<close> is \<^verbatim>\<open>while (c(*++l));\<close> and \<open>scan_down c a k\<close> is
  \<^verbatim>\<open>while (c(*--k));\<close>; both return the pointer at which the scan stops. The source has
  them with the conditions \<open>*++l < p\<close>, \<open>*--k >= p\<close>, \<open>*--g > h\<close> and \<open>*++l == h\<close>.
  \<open>gap_loop c a l g k\<close> is the branchless Lomuto loop
  \<^verbatim>\<open>while (g < k) { *g++ = *l; *l = *g; l += c(*l); }\<close>, which the source has with
  \<open>*l < p\<close> (main partition) and, with \<open>k\<close> and \<open>g\<close> exchanged, with \<open>*l == h\<close>
  (partition left).
\<close>

function scan_up :: "('a \<Rightarrow> bool) \<Rightarrow> 'a list \<Rightarrow> int \<Rightarrow> err + int" where
  "scan_up c a l =
    (let l1 = l + 1 in
     if \<not> inb a l1 then Inl OutOfBounds
     else if c (rd a l1) then scan_up c a l1
     else Inr l1)"
  by pat_completeness auto
termination
  by (relation "measure (\<lambda>(c, a, l). nat (int (length a) - l))") (auto simp: inb_def)

function scan_down :: "('a \<Rightarrow> bool) \<Rightarrow> 'a list \<Rightarrow> int \<Rightarrow> err + int" where
  "scan_down c a k =
    (let k1 = k - 1 in
     if \<not> inb a k1 then Inl OutOfBounds
     else if c (rd a k1) then scan_down c a k1
     else Inr k1)"
  by pat_completeness auto
termination
  by (relation "measure (\<lambda>(c, a, k). nat k)") (auto simp: inb_def)

function gap_loop ::
  "('a \<Rightarrow> bool) \<Rightarrow> 'a list \<Rightarrow> int \<Rightarrow> int \<Rightarrow> int \<Rightarrow> err + ('a list \<times> int \<times> int)" where
  "gap_loop c a l g k =
    (if g < k then
       (if inb a l \<and> inb a g \<and> inb a (g + 1) then
          (let a1 = wr a g (rd a l);
               g1 = g + 1;
               a2 = wr a1 l (rd a1 g1);
               l1 = l + (if c (rd a2 l) then 1 else 0)
           in gap_loop c a2 l1 g1 k)
        else Inl OutOfBounds)
     else Inr (a, l, g))"
  by pat_completeness auto
termination
  by (relation "measure (\<lambda>(c, a, l, g, k). nat (k - g))") auto

subsection \<open>Partition left\<close>

text \<open>
  The body of \<^verbatim>\<open>if(h == *sl || h == *mid || h == *sr)\<close> up to \<^verbatim>\<open>low = l\<close>; the result
  is the array and the new \<open>low\<close>. \<open>h + 1\<close> is the addition of words.
\<close>

definition partition_left ::
  "'a::len word list \<Rightarrow> int \<Rightarrow> int \<Rightarrow> 'a word \<Rightarrow> err + ('a word list \<times> int)" where
  "partition_left a low high h =
    (case scan_down (\<lambda>v. h <s v) a (high + 1) of
       Inl e \<Rightarrow> Inl e
     | Inr g \<Rightarrow>
        (let e = rd a g; a1 = wr a g (h + 1) in
         case scan_up (\<lambda>v. v = h) a1 (low - 1) of
           Inl e1 \<Rightarrow> Inl e1
         | Inr l \<Rightarrow>
            (let a2 = wr a1 g e; k = l; p = rd a2 l in
             case gap_loop (\<lambda>v. v = h) a2 l k g of
               Inl e1 \<Rightarrow> Inl e1
             | Inr (a3, l1, k1) \<Rightarrow>
                 if inb a3 k1 \<and> inb a3 l1 then
                   (let a4 = wr a3 k1 (rd a3 l1); a5 = wr a4 l1 p
                    in Inr (a5, l1 + (if p = h then 1 else 0)))
                 else Inl OutOfBounds)))"

text \<open>
  The test that guards it: \<^verbatim>\<open>if(!leftmost) { E h = *(low - 1); if(h == *sl || ...\<close>.
\<close>

definition equal_left ::
  "bool \<Rightarrow> 'a::len word list \<Rightarrow> int \<Rightarrow> int \<Rightarrow> int \<Rightarrow> int \<Rightarrow> err + bool" where
  "equal_left leftmost a low sl mid sr =
    (if leftmost then Inr False
     else if \<not> (inb a (low - 1) \<and> inb a sl \<and> inb a mid \<and> inb a sr) then Inl OutOfBounds
     else (let h = rd a (low - 1) in Inr (h = rd a sl \<or> h = rd a mid \<or> h = rd a sr)))"

subsection \<open>Main partition\<close>

text \<open>
  From \<^verbatim>\<open>E *l = low - 1, *k = high + 1;\<close> to \<^verbatim>\<open>*g = *l; *l = p;\<close>. The result is the
  array, the pointer \<open>l\<close> of the pivot and the flag \<open>work\<close>. \<open>p - 1\<close> is the
  subtraction of words: it wraps around at the least value of the type.
\<close>

definition partition_main ::
  "'a::len word list \<Rightarrow> int \<Rightarrow> int \<Rightarrow> int \<Rightarrow> int \<Rightarrow> err + ('a word list \<times> int \<times> bool)" where
  "partition_main a low high mid x =
    (if \<not> inb a mid then Inl OutOfBounds
     else
       (let p = rd a mid in
        case scan_up (\<lambda>v. v <s p) a (low - 1) of
          Inl e \<Rightarrow> Inl e
        | Inr l \<Rightarrow>
           (let a1 = wr a mid (rd a l); a2 = wr a1 l (p - 1) in
            case scan_down (\<lambda>v. p \<le>s v) a2 (high + 1) of
              Inl e \<Rightarrow> Inl e
            | Inr k \<Rightarrow>
               (let work = ((l - low) + (high - k) < x div 2); g = l in
                case gap_loop (\<lambda>v. v <s p) a2 l g k of
                  Inl e \<Rightarrow> Inl e
                | Inr (a3, l1, g1) \<Rightarrow>
                    if inb a3 g1 \<and> inb a3 l1 then
                      (let a4 = wr a3 g1 (rd a3 l1) in Inr (wr a4 l1 p, l1, work))
                    else Inl OutOfBounds))))"

text \<open>
  \<^verbatim>\<open>g = l + (l < high); l -= (l > low);\<close>: the result is the pair of the new \<open>g\<close> and
  the new \<open>l\<close>, the left side being \<open>[low, l]\<close> and the right side \<open>[g, high]\<close>.
\<close>

definition skip_pivot :: "int \<Rightarrow> int \<Rightarrow> int \<Rightarrow> int \<times> int" where
  "skip_pivot low high l = (l + (if l < high then 1 else 0), l - (if low < l then 1 else 0))"

subsection \<open>After the partition\<close>

text \<open>
  From \<^verbatim>\<open>const uint32_t _8th = x >> 3U;\<close> to the label \<open>l1\<close>. \<open>Done\<close> is the
  \<^verbatim>\<open>return\<close> after two successful insertion sorts; \<open>Cont True\<close> is arriving at \<open>l1\<close>
  and \<open>Cont False\<close> is \<^verbatim>\<open>goto l2\<close>, each with the array and \<open>height\<close>.
\<close>

datatype 'a nxt = Done "'a list" | Cont bool "'a list" int

definition optimism ::
  "bool \<Rightarrow> 'a::len word list \<Rightarrow> int \<Rightarrow> int \<Rightarrow> int \<Rightarrow> int \<Rightarrow> int \<Rightarrow> bool \<Rightarrow> int
    \<Rightarrow> err + 'a word nxt" where
  "optimism leftmost a low l g high x work height =
    (let eighth = x div 8; ls = u32 (l - low); gs = u32 (high - g) in
     if eighth \<le> ls \<and> eighth \<le> gs then
       (if work then Inr (Cont True a height)
        else
          (case iSort True leftmost a low l of
             Inl e \<Rightarrow> Inl e
           | Inr (a1, ok1) \<Rightarrow>
               if \<not> ok1 then Inr (Cont True a1 height)
               else
                 (case iSort True False a1 g high of
                    Inl e \<Rightarrow> Inl e
                  | Inr (a2, ok2) \<Rightarrow>
                      if \<not> ok2 then Inr (Cont False a2 height) else Inr (Done a2))))
     else
       (case scramble a low l ls of
          Inl e \<Rightarrow> Inl e
        | Inr a1 \<Rightarrow>
           (case scramble a1 g high gs of
              Inl e \<Rightarrow> Inl e
            | Inr a2 \<Rightarrow> Inr (Cont True a2 (height - 1)))))"

subsection \<open>qSort\<close>

text \<open>
  \<open>qSort root leftmost a low high height\<close> is \<open>qSort<E, Root>(leftmost, low, high, height)\<close>.
  The tail-call loop is recursion: a \<^verbatim>\<open>continue\<close> and the end of the loop body are
  calls with the same \<open>root\<close>; \<open>x\<close> is \<open>high - low\<close> at each of them, as in the source.
  The function is partial: \<open>None\<close> is a run that does not end.
\<close>

partial_function (option) qSort ::
  "bool \<Rightarrow> bool \<Rightarrow> 'a::len word list \<Rightarrow> int \<Rightarrow> int \<Rightarrow> int \<Rightarrow> (err + 'a word list) option" where
  "qSort root leftmost a low high height =
    (let x = u32 (high - low) in
     if \<not> root \<and> x < InsertionThreshold then
       Some (case iSort False leftmost a low high of
               Inl e \<Rightarrow> Inl e
             | Inr (a1, ok) \<Rightarrow> Inr a1)
     else if \<not> root \<and> height < 0 then Some (hSort a low high)
     else
       (let y = x div 4;
            third = y + y div 2;
            sixth = third div 2;
            mid = low + x div 2;
            sl = low + third;
            sr = high - third;
            cl = low + sixth;
            cr = high - sixth
        in case candidates a low high cl sl mid sr cr of
             Inl e \<Rightarrow> Some (Inl e)
           | Inr a1 \<Rightarrow>
              (case equal_left leftmost a1 low sl mid sr of
                 Inl e \<Rightarrow> Some (Inl e)
               | Inr eq \<Rightarrow>
                  if eq then
                  (case partition_left a1 low high (rd a1 (low - 1)) of
                     Inl e \<Rightarrow> Some (Inl e)
                   | Inr (a2, l) \<Rightarrow>
                       if high \<le> l then Some (Inr a2)
                       else qSort root leftmost a2 l high height)
                  else
                  (case partition_main a1 low high mid x of
                     Inl e \<Rightarrow> Some (Inl e)
                   | Inr (a2, l0, work) \<Rightarrow>
                      (case skip_pivot low high l0 of (g, l) \<Rightarrow>
                          case optimism leftmost a2 low l g high x work height of
                            Inl e \<Rightarrow> Some (Inl e)
                          | Inr (Done a3) \<Rightarrow> Some (Inr a3)
                          | Inr (Cont left a3 height1) \<Rightarrow>
                              Option.bind
                                (if left then qSort False leftmost a3 low l height1
                                 else Some (Inr a3))
                                (\<lambda>res. case res of
                                   Inl e \<Rightarrow> Some (Inl e)
                                 | Inr a4 \<Rightarrow>
                                    (let x1 = u32 (high - g) in
                                     if root \<and> x1 < InsertionThreshold then
                                       Some (case iSort False False a4 g high of
                                               Inl e \<Rightarrow> Inl e
                                             | Inr (a5, ok) \<Rightarrow> Inr a5)
                                     else if root \<and> height1 < 0 then Some (hSort a4 g high)
                                     else qSort root False a4 g high height1)))))))"

declare qSort.simps [code]

section \<open>blipsort\<close>

text \<open>
  \<open>cnt\<close> is a \<open>uint32_t\<close>: \<open>cnt - 1\<close> is taken in 32 bits and then added to the
  pointer \<open>a\<close>, whose address space is larger (a 64-bit target).
\<close>

definition blipsort :: "'a::len word list \<Rightarrow> 32 word \<Rightarrow> (err + 'a word list) option" where
  "blipsort a cnt =
    (if uint cnt < InsertionThreshold then
       Some (case iSort False True a 0 (0 + uint (cnt - 1)) of
               Inl e \<Rightarrow> Inl e
             | Inr (a1, ok) \<Rightarrow> Inr a1)
     else
       (case bitScanRev cnt of
          Inl e \<Rightarrow> Some (Inl e)
        | Inr log2Cnt \<Rightarrow> qSort True True a 0 (0 + uint (cnt - 1)) log2Cnt))"

section \<open>Subranges\<close>

text \<open>
  \<open>slice a low high\<close> is the content of the subrange \<open>[low, high]\<close>;
  \<open>same_outside a b low high\<close> says that \<open>b\<close> is \<open>a\<close> outside that subrange.
\<close>

definition slice :: "'a list \<Rightarrow> int \<Rightarrow> int \<Rightarrow> 'a list" where
  "slice a low high = take (nat (high + 1 - low)) (drop (nat low) a)"

definition same_outside :: "'a list \<Rightarrow> 'a list \<Rightarrow> int \<Rightarrow> int \<Rightarrow> bool" where
  "same_outside a b low high =
    (length b = length a \<and> (\<forall>i. inb a i \<and> (i < low \<or> high < i) \<longrightarrow> rd b i = rd a i))"

section \<open>The rotation as the specification words it\<close>

text \<open>
  Written from the specification, for comparison with \<open>swap_rotate\<close>: ``swap
  \<open>low + i\<close> with \<open>high - i\<close> for \<open>i = 0..(mid - low - 1)\<close>''. \<open>exchange\<close> is
  the swap of two places, \<open>swap_pairs a low high n\<close> the \<open>n\<close> swaps in turn.
\<close>

definition exchange :: "'a list \<Rightarrow> int \<Rightarrow> int \<Rightarrow> 'a list" where
  "exchange a i j = wr (wr a i (rd a j)) j (rd a i)"

definition swap_pairs :: "'a list \<Rightarrow> int \<Rightarrow> int \<Rightarrow> nat \<Rightarrow> 'a list" where
  "swap_pairs a low high n =
    foldl (\<lambda>b i. exchange b (low + int i) (high - int i)) a [0..<n]"

text \<open>\<open>ascending a low high\<close>: the subrange \<open>[low, high]\<close> is non-decreasing.\<close>

definition ascending :: "'a::len word list \<Rightarrow> int \<Rightarrow> int \<Rightarrow> bool" where
  "ascending a low high = (\<forall>i j. low \<le> i \<and> i \<le> j \<and> j \<le> high \<longrightarrow> rd a i \<le>s rd a j)"

text \<open>
  \<open>left_bounded a low high\<close>: the element at \<open>low - 1\<close> exists and is at most every
  element of \<open>[low, high]\<close>, which is what a frame that is not \<open>leftmost\<close> relies on.
\<close>

definition left_bounded :: "'a::len word list \<Rightarrow> int \<Rightarrow> int \<Rightarrow> bool" where
  "left_bounded a low high =
    (inb a (low - 1) \<and> (\<forall>k. low \<le> k \<and> k \<le> high \<longrightarrow> rd a (low - 1) \<le>s rd a k))"

text \<open>
  \<open>permuted a b low high\<close>: \<open>b\<close> is \<open>a\<close> with the subrange \<open>[low, high]\<close> permuted
  and everything else in place.
\<close>

definition permuted :: "'a list \<Rightarrow> 'a list \<Rightarrow> int \<Rightarrow> int \<Rightarrow> bool" where
  "permuted a b low high =
    (mset (slice b low high) = mset (slice a low high) \<and> same_outside a b low high)"

declare siftDown_loop.simps [simp del]
declare hSort_build.simps [simp del]
declare hSort_extract.simps [simp del]
declare ins_guarded.simps [simp del]
declare iSort_guarded.simps [simp del]
declare skip_ascending.simps [simp del]
declare shift_by.simps [simp del]
declare iSort_pairs.simps [simp del]
declare swap_rotate.simps [simp del]
declare scan_up.simps [simp del]
declare scan_down.simps [simp del]
declare gap_loop.simps [simp del]

section \<open>Reading and writing\<close>

lemma length_wr [simp]: "length (wr a i v) = length a"
  by (simp add: wr_def)

lemma inb_wr [simp]: "inb (wr a i v) j = inb a j"
  by (simp add: inb_def)

lemma inb_nat: "inb a i \<Longrightarrow> nat i < length a"
  by (auto simp: inb_def)

lemma rd_wr_same [simp]: "inb a i \<Longrightarrow> rd (wr a i v) i = v"
  by (simp add: inb_nat rd_def wr_def)

lemma rd_wr_other [simp]: "0 \<le> i \<Longrightarrow> 0 \<le> j \<Longrightarrow> i \<noteq> j \<Longrightarrow> rd (wr a i v) j = rd a j"
  by (simp add: rd_def wr_def)

lemma rd_wr: "inb a i \<Longrightarrow> inb a j \<Longrightarrow> rd (wr a i v) j = (if j = i then v else rd a j)"
  by (auto simp: inb_def)

lemma wr_rd_same [simp]: "wr a i (rd a i) = a"
  by (simp add: rd_def wr_def)

lemma wr_wr_same [simp]: "wr (wr a i v) i w = wr a i w"
  by (simp add: wr_def)

lemma mset_hole:
  assumes "inb a i" "inb a j"
  shows "mset (wr (wr a i (rd a j)) j t) = mset (wr a i t)"
proof (cases "i = j")
  case True
  then show ?thesis by simp
next
  case False
  let ?b = "a[nat i := t]"
  have ij: "nat i < length a" "nat j < length a" "nat i \<noteq> nat j"
    using assms False by (auto simp: inb_def)
  have "mset (?b[nat j := ?b ! nat i, nat i := ?b ! nat j]) = mset ?b"
    by (rule mset_swap) (use ij in simp_all)
  moreover have "?b[nat j := ?b ! nat i, nat i := ?b ! nat j] = a[nat i := a ! nat j, nat j := t]"
    using ij by (intro nth_equalityI) (auto simp: nth_list_update)
  ultimately show ?thesis by (simp add: wr_def rd_def)
qed

lemma mset_swap_wr:
  assumes "inb a i" "inb a j"
  shows "mset (wr (wr a i (rd a j)) j (rd a i)) = mset a"
  using mset_hole[OF assms, of "rd a i"] by simp

lemma same_outside_refl [simp]: "same_outside a a low high"
  by (simp add: same_outside_def)

lemma same_outside_trans:
  "same_outside a b low high \<Longrightarrow> same_outside b c low high \<Longrightarrow> same_outside a c low high"
  by (auto simp: same_outside_def inb_def)

lemma same_outside_wr:
  "low \<le> i \<Longrightarrow> i \<le> high \<Longrightarrow> 0 \<le> i \<Longrightarrow> same_outside a (wr a i v) low high"
  by (auto simp: same_outside_def inb_def)

lemma same_outside_mono:
  "same_outside a b l h \<Longrightarrow> low \<le> l \<Longrightarrow> h \<le> high \<Longrightarrow> same_outside a b low high"
  by (auto simp: same_outside_def)

lemma same_outside_inb: "same_outside a b low high \<Longrightarrow> inb b i = inb a i"
  by (simp add: same_outside_def inb_def)

text \<open>A permutation of the array that fixes the outside of a subrange permutes the subrange.\<close>

lemma slice_perm:
  assumes m: "mset b = mset a" and so: "same_outside a b low high"
    and lo: "0 \<le> low"
  shows "mset (slice b low high) = mset (slice a low high)"
proof -
  have len: "length b = length a" using so by (simp add: same_outside_def)
  let ?n = "nat low" and ?m = "nat (high + 1 - low)"
  have pre: "take ?n b = take ?n a"
  proof (rule nth_equalityI)
    show "length (take ?n b) = length (take ?n a)" using len by simp
    fix i assume "i < length (take ?n b)"
    then have "i < ?n" "i < length a" using len by auto
    then have "inb a (int i)" "int i < low" by (auto simp: inb_def)
    then have "rd b (int i) = rd a (int i)" using so by (auto simp: same_outside_def)
    then show "take ?n b ! i = take ?n a ! i" using \<open>i < ?n\<close> by (simp add: rd_def)
  qed
  have post: "drop (?n + ?m) b = drop (?n + ?m) a"
  proof (rule nth_equalityI)
    show "length (drop (?n + ?m) b) = length (drop (?n + ?m) a)" using len by simp
    fix i assume "i < length (drop (?n + ?m) b)"
    then have i: "?n + ?m + i < length a" using len by auto
    define K where "K = ?n + ?m + i"
    have "inb a (int K)" using i by (auto simp: inb_def K_def)
    moreover have "high < int K" using lo by (auto simp: K_def)
    ultimately have "rd b (int K) = rd a (int K)"
      using so unfolding same_outside_def by blast
    then have "b ! K = a ! K" by (simp only: rd_def nat_int)
    then show "drop (?n + ?m) b ! i = drop (?n + ?m) a ! i"
      using i len by (simp add: K_def)
  qed
  have sa: "a = take ?n a @ slice a low high @ drop (?n + ?m) a"
    unfolding slice_def by (metis append_take_drop_id drop_drop add.commute)
  have sb: "b = take ?n b @ slice b low high @ drop (?n + ?m) b"
    unfolding slice_def by (metis append_take_drop_id drop_drop add.commute)
  have "mset (take ?n a) + mset (slice b low high) + mset (drop (?n + ?m) a)
      = mset (take ?n a) + mset (slice a low high) + mset (drop (?n + ?m) a)"
    using m pre post by (metis sa sb mset_append add.assoc)
  then show ?thesis by simp
qed

section \<open>Signed words\<close>

lemma sint_min_value: "sint (min_value :: 'a::len word) = - (2 ^ (LENGTH('a) - 1))"
  unfolding min_value_def sint_sbintrunc'
  by (rule signed_take_bit_int_eq_self) simp_all

lemma min_value_sle: "(min_value :: 'a::len word) \<le>s v"
  unfolding word_sle_eq sint_min_value by (rule sint_ge)

lemma pred_sless:
  fixes p :: "'a::len word"
  assumes "p \<noteq> min_value"
  shows "p - 1 <s p"
proof -
  have "sint p \<noteq> sint (min_value :: 'a word)"
    using assms by (auto dest: signed_word_eqI)
  then have "- (2 ^ (LENGTH('a) - 1)) < sint p"
    using sint_ge[of p] unfolding sint_min_value by linarith
  then have *: "signed_take_bit (LENGTH('a) - 1) (sint p - 1) = sint p - 1"
    using sint_lt[of p] by (intro signed_take_bit_int_eq_self) auto
  have "p - 1 = word_of_int (sint p - 1)" by simp
  then have "sint (p - 1) = signed_take_bit (LENGTH('a) - 1) (sint p - 1)"
    by (simp only: sint_sbintrunc')
  with * show ?thesis unfolding word_sless_alt by linarith
qed

section \<open>Scans\<close>

lemma scan_down_always:
  assumes "\<And>v. c v"
  shows "scan_down c a k = Inl OutOfBounds"
proof (induction "nat k" arbitrary: k rule: less_induct)
  case less
  show ?case
  proof (cases "inb a (k - 1)")
    case True
    then have "nat (k - 1) < nat k" by (simp add: inb_def)
    then have "scan_down c a (k - 1) = Inl OutOfBounds" by (rule less)
    moreover have "scan_down c a k = scan_down c a (k - 1)"
      using True assms by (subst scan_down.simps) (simp add: Let_def)
    ultimately show ?thesis by simp
  next
    case False
    then show ?thesis by (subst scan_down.simps) (simp add: Let_def)
  qed
qed

lemma scan_up_Inr:
  "scan_up c a l = Inr j \<Longrightarrow>
    l < j \<and> inb a j \<and> \<not> c (rd a j) \<and> (\<forall>i. l < i \<and> i < j \<longrightarrow> inb a i \<and> c (rd a i))"
proof (induction c a l rule: scan_up.induct)
  case (1 c a l)
  show ?case
  proof (cases "inb a (l + 1) \<and> c (rd a (l + 1))")
    case True
    then have "scan_up c a l = scan_up c a (l + 1)"
      by (subst scan_up.simps) (simp add: Let_def)
    then have "scan_up c a (l + 1) = Inr j" using "1.prems" by simp
    then have IH: "l + 1 < j \<and> inb a j \<and> \<not> c (rd a j) \<and>
        (\<forall>i. l + 1 < i \<and> i < j \<longrightarrow> inb a i \<and> c (rd a i))"
      using "1.IH"[OF refl] True by blast
    have "inb a i \<and> c (rd a i)" if "l < i" "i < j" for i
    proof (cases "i = l + 1")
      case True
      then show ?thesis using \<open>inb a (l + 1) \<and> c (rd a (l + 1))\<close> by simp
    next
      case False
      then show ?thesis using that IH by auto
    qed
    then show ?thesis using IH by auto
  next
    case False
    then have "j = l + 1 \<and> inb a (l + 1) \<and> \<not> c (rd a (l + 1))"
      using "1.prems" by (subst (asm) scan_up.simps) (auto simp: Let_def split: if_splits)
    then show ?thesis by auto
  qed
qed

lemma scan_up_total:
  assumes "l < j" "inb a j" "\<not> c (rd a j)" "0 \<le> l + 1"
  shows "\<exists>j'. scan_up c a l = Inr j' \<and> j' \<le> j"
  using assms
proof (induction "nat (j - l)" arbitrary: l rule: less_induct)
  case less
  have inb1: "inb a (l + 1)" using less.prems by (auto simp: inb_def)
  show ?case
  proof (cases "c (rd a (l + 1))")
    case True
    then have "l + 1 \<noteq> j" using less.prems by auto
    then have lt: "l + 1 < j" using less.prems by simp
    then have "nat (j - (l + 1)) < nat (j - l)" by simp
    then have "\<exists>j'. scan_up c a (l + 1) = Inr j' \<and> j' \<le> j"
      using less.hyps[of "l + 1"] lt less.prems by simp
    moreover have "scan_up c a l = scan_up c a (l + 1)"
      using inb1 True by (subst scan_up.simps) (simp add: Let_def)
    ultimately show ?thesis by simp
  next
    case False
    then have "scan_up c a l = Inr (l + 1)"
      using inb1 by (subst scan_up.simps) (simp add: Let_def)
    then show ?thesis using less.prems by simp
  qed
qed

lemma scan_down_Inr:
  "scan_down c a k = Inr j \<Longrightarrow>
    j < k \<and> inb a j \<and> \<not> c (rd a j) \<and> (\<forall>i. j < i \<and> i < k \<longrightarrow> inb a i \<and> c (rd a i))"
proof (induction c a k rule: scan_down.induct)
  case (1 c a k)
  show ?case
  proof (cases "inb a (k - 1) \<and> c (rd a (k - 1))")
    case True
    then have "scan_down c a k = scan_down c a (k - 1)"
      by (subst scan_down.simps) (simp add: Let_def)
    then have "scan_down c a (k - 1) = Inr j" using "1.prems" by simp
    then have IH: "j < k - 1 \<and> inb a j \<and> \<not> c (rd a j) \<and>
        (\<forall>i. j < i \<and> i < k - 1 \<longrightarrow> inb a i \<and> c (rd a i))"
      using "1.IH"[OF refl] True by blast
    have "inb a i \<and> c (rd a i)" if "j < i" "i < k" for i
    proof (cases "i = k - 1")
      case True
      then show ?thesis using \<open>inb a (k - 1) \<and> c (rd a (k - 1))\<close> by simp
    next
      case False
      then show ?thesis using that IH by auto
    qed
    then show ?thesis using IH by auto
  next
    case False
    then have "j = k - 1 \<and> inb a (k - 1) \<and> \<not> c (rd a (k - 1))"
      using "1.prems" by (subst (asm) scan_down.simps) (auto simp: Let_def split: if_splits)
    then show ?thesis by auto
  qed
qed

lemma scan_down_total:
  assumes "j < k" "inb a j" "\<not> c (rd a j)" "k \<le> int (length a)"
  shows "\<exists>j'. scan_down c a k = Inr j' \<and> j \<le> j'"
  using assms
proof (induction "nat (k - j)" arbitrary: k rule: less_induct)
  case less
  have inb1: "inb a (k - 1)" using less.prems by (auto simp: inb_def)
  show ?case
  proof (cases "c (rd a (k - 1))")
    case True
    then have "k - 1 \<noteq> j" using less.prems by auto
    then have lt: "j < k - 1" using less.prems by simp
    then have "nat (k - 1 - j) < nat (k - j)" by simp
    then have "\<exists>j'. scan_down c a (k - 1) = Inr j' \<and> j \<le> j'"
      using less.hyps[of "k - 1"] lt less.prems by simp
    moreover have "scan_down c a k = scan_down c a (k - 1)"
      using inb1 True by (subst scan_down.simps) (simp add: Let_def)
    ultimately show ?thesis by simp
  next
    case False
    then have "scan_down c a k = Inr (k - 1)"
      using inb1 by (subst scan_down.simps) (simp add: Let_def)
    then show ?thesis using less.prems by simp
  qed
qed

section \<open>The gap loop\<close>

lemma gap_loop_step:
  assumes "g < k" "inb a l" "inb a g" "inb a (g + 1)"
  shows "gap_loop c a l g k =
     gap_loop c (wr (wr a g (rd a l)) l (rd (wr a g (rd a l)) (g + 1)))
       (l + (if c (rd (wr (wr a g (rd a l)) l (rd (wr a g (rd a l)) (g + 1))) l) then 1 else 0))
       (g + 1) k"
  using assms by (subst gap_loop.simps) (simp add: Let_def)

lemma gap_loop_exit: "\<not> g < k \<Longrightarrow> gap_loop c a l g k = Inr (a, l, g)"
  by (subst gap_loop.simps) simp

lemma gap_loop_post:
  assumes "l \<le> g" "g \<le> k" "inb a l" "inb a k"
    and "\<forall>i. l \<le> i \<and> i < g \<longrightarrow> \<not> c (rd a i)"
  shows "\<exists>b l'. gap_loop c a l g k = Inr (b, l', k) \<and> l \<le> l' \<and> l' \<le> k \<and>
      same_outside a b l k \<and>
      (\<forall>v. mset (wr b k v) = mset (wr a g v)) \<and>
      (\<forall>i. l \<le> i \<and> i < l' \<longrightarrow> c (rd b i)) \<and>
      (\<forall>i. l' \<le> i \<and> i < k \<longrightarrow> \<not> c (rd b i))"
  using assms
proof (induction "nat (k - g)" arbitrary: a l g rule: less_induct)
  case less
  show ?case
  proof (cases "g < k")
    case False
    then have "g = k" using less.prems by simp
    then show ?thesis using less.prems gap_loop_exit[of g k c a l] by auto
  next
    case True
    have inbs: "inb a g" "inb a (g + 1)"
      using less.prems True by (auto simp: inb_def)
    define a1 where "a1 = wr a g (rd a l)"
    define a2 where "a2 = wr a1 l (rd a1 (g + 1))"
    define l1 where "l1 = l + (if c (rd a2 l) then 1 else 0)"
    have step: "gap_loop c a l g k = gap_loop c a2 l1 (g + 1) k"
      unfolding l1_def a2_def a1_def
      by (rule gap_loop_step) (use True less.prems inbs in auto)
    have nxt: "rd a1 (g + 1) = rd a (g + 1)"
      unfolding a1_def using inbs by (simp add: rd_wr)
    have a2l: "rd a2 l = rd a (g + 1)"
      unfolding a2_def using less.prems nxt by (simp add: a1_def)
    have l1: "l \<le> l1" "l1 \<le> g + 1" "l1 \<le> l + 1"
      using less.prems by (auto simp: l1_def)
    have inb2: "inb a2 l1" "inb a2 k"
      using less.prems inbs l1 True by (auto simp: a2_def a1_def inb_def)
    have notc: "\<not> c (rd a2 i)" if "l1 \<le> i" "i < g + 1" for i
    proof -
      note rng = that
      have ib: "inb a i" using rng l1 less.prems inbs by (auto simp: inb_def)
      consider "i = l" | "l < i" "i < g" | "l < i" "i = g"
        using rng l1 by fastforce
      then show ?thesis
      proof cases
        case 1
        then have "\<not> c (rd a2 l)" using rng by (auto simp: l1_def split: if_splits)
        then show ?thesis using 1 by simp
      next
        case 2
        then have "rd a2 i = rd a i"
          unfolding a2_def a1_def using ib inbs less.prems by (simp add: rd_wr)
        then show ?thesis using 2 less.prems by simp
      next
        case 3
        then have "rd a2 i = rd a l"
          unfolding a2_def a1_def using ib inbs less.prems by (simp add: rd_wr)
        then show ?thesis using 3 less.prems by simp
      qed
    qed
    have "nat (k - (g + 1)) < nat (k - g)" using True by simp
    from less.hyps[OF this, of l1 a2] obtain b l' where
      run: "gap_loop c a2 l1 (g + 1) k = Inr (b, l', k)" and
      ll: "l1 \<le> l'" "l' \<le> k" and
      so: "same_outside a2 b l1 k" and
      ms: "\<forall>v. mset (wr b k v) = mset (wr a2 (g + 1) v)" and
      lo: "\<forall>i. l1 \<le> i \<and> i < l' \<longrightarrow> c (rd b i)" and
      hi: "\<forall>i. l' \<le> i \<and> i < k \<longrightarrow> \<not> c (rd b i)"
      using l1 True inb2 notc by auto
    have so_a: "same_outside a a2 l k"
      unfolding a2_def a1_def
      by (rule same_outside_trans[OF same_outside_wr same_outside_wr])
         (use less.prems True inbs in \<open>auto simp: inb_def\<close>)
    have so': "same_outside a b l k"
      by (rule same_outside_trans[OF so_a same_outside_mono[OF so]]) (use l1 in auto)
    have ms': "mset (wr b k v) = mset (wr a g v)" for v
    proof -
      have "mset (wr a2 (g + 1) v) = mset (wr a1 l v)"
        unfolding a2_def using inbs less.prems
        by (intro mset_hole) (auto simp: a1_def)
      also have "\<dots> = mset (wr a g v)"
        unfolding a1_def using inbs less.prems by (intro mset_hole) auto
      finally show ?thesis using ms by simp
    qed
    have lo': "c (rd b i)" if "l \<le> i" "i < l'" for i
    proof (cases "l1 \<le> i")
      case True
      then show ?thesis using lo that by simp
    next
      case False
      then have il: "i = l" "l1 = l + 1" using that l1 by auto
      then have "c (rd a2 l)" by (auto simp: l1_def split: if_splits)
      moreover have "rd b l = rd a2 l"
        using so il less.prems unfolding same_outside_def by (auto simp: a2_def a1_def)
      ultimately show ?thesis using il by simp
    qed
    show ?thesis
      using step run ll l1 so' ms' lo' hi by auto
  qed
qed

section \<open>The main partition\<close>

lemma partition_main_cases:
  fixes a :: "'a::len word list"
  assumes bnd: "inb a low" "inb a high" "low \<le> mid" "mid \<le> high"
  obtains (stuck) e where "partition_main a low high mid x = Inl e" "rd a mid = min_value"
  | (part) b l w where "partition_main a low high mid x = Inr (b, l, w)"
      "low \<le> l" "l \<le> high" "mset b = mset a" "same_outside a b low high"
      "\<forall>i. low \<le> i \<and> i < l \<longrightarrow> rd b i <s rd a mid"
      "rd b l = rd a mid"
      "\<forall>i. l < i \<and> i \<le> high \<longrightarrow> rd a mid \<le>s rd b i"
proof -
  define p where "p = rd a mid"
  have im: "inb a mid" using bnd by (auto simp: inb_def)
  have "\<not> p <s p" by simp
  then obtain l0 where su: "scan_up (\<lambda>v. v <s p) a (low - 1) = Inr l0" and l0m: "l0 \<le> mid"
    using scan_up_total[of "low - 1" mid a "\<lambda>v. v <s p"] im bnd
    by (auto simp: p_def inb_def)
  from scan_up_Inr[OF su] have l0: "low \<le> l0" "inb a l0" "\<not> rd a l0 <s p"
    and below: "\<forall>i. low \<le> i \<and> i < l0 \<longrightarrow> rd a i <s p"
    by auto
  define a1 where "a1 = wr a mid (rd a l0)"
  define a2 where "a2 = wr a1 l0 (p - 1)"
  have ib2: "inb a2 i = inb a i" for i by (simp add: a2_def a1_def)
  have a2l0: "rd a2 l0 = p - 1" using l0 by (simp add: a2_def a1_def)
  have unf: "partition_main a low high mid x =
    (case scan_down (\<lambda>v. p \<le>s v) a2 (high + 1) of
       Inl e \<Rightarrow> Inl e
     | Inr k \<Rightarrow>
        (case gap_loop (\<lambda>v. v <s p) a2 l0 l0 k of
           Inl e \<Rightarrow> Inl e
         | Inr (a3, l1, g1) \<Rightarrow>
             if inb a3 g1 \<and> inb a3 l1 then
               Inr (wr (wr a3 g1 (rd a3 l1)) l1 p, l1, (l0 - low) + (high - k) < x div 2)
             else Inl OutOfBounds))"
    unfolding partition_main_def using im su
    by (simp add: Let_def p_def[symmetric] a1_def a2_def split: sum.splits prod.splits)
  show thesis
  proof (cases "scan_down (\<lambda>v. p \<le>s v) a2 (high + 1)")
    case (Inl e)
    have "p = min_value"
    proof (rule ccontr)
      assume "p \<noteq> min_value"
      then have "\<not> p \<le>s rd a2 l0" using pred_sless[of p] a2l0 by (simp add: signed.not_le)
      then have "\<exists>j'. scan_down (\<lambda>v. p \<le>s v) a2 (high + 1) = Inr j' \<and> l0 \<le> j'"
        using l0 l0m bnd by (intro scan_down_total) (auto simp: ib2 inb_def a2_def a1_def)
      then show False using Inl by simp
    qed
    then show ?thesis using stuck[of e] unf Inl by (simp add: p_def)
  next
    case (Inr k)
    from scan_down_Inr[OF Inr] have k: "k \<le> high" "inb a k" "\<not> p \<le>s rd a2 k"
      and above: "\<forall>i. k < i \<and> i \<le> high \<longrightarrow> p \<le>s rd a2 i"
      by (auto simp: ib2)
    have l0k: "l0 \<le> k"
    proof (rule ccontr)
      assume "\<not> l0 \<le> k"
      then have "p \<le>s rd a2 l0" using above l0m bnd by auto
      then have "p = min_value" using pred_sless[of p] a2l0 by (auto simp: signed.not_le[symmetric])
      then show False using k min_value_sle by auto
    qed
    have "\<exists>b l'. gap_loop (\<lambda>v. v <s p) a2 l0 l0 k = Inr (b, l', k) \<and> l0 \<le> l' \<and> l' \<le> k \<and>
      same_outside a2 b l0 k \<and>
      (\<forall>v. mset (wr b k v) = mset (wr a2 l0 v)) \<and>
      (\<forall>i. l0 \<le> i \<and> i < l' \<longrightarrow> rd b i <s p) \<and>
      (\<forall>i. l' \<le> i \<and> i < k \<longrightarrow> \<not> rd b i <s p)"
      by (rule gap_loop_post) (use l0k l0 k in \<open>auto simp: ib2\<close>)
    then obtain a3 l1 where gl: "gap_loop (\<lambda>v. v <s p) a2 l0 l0 k = Inr (a3, l1, k)"
      and l1: "l0 \<le> l1" "l1 \<le> k"
      and so3: "same_outside a2 a3 l0 k"
      and ms3: "\<forall>v. mset (wr a3 k v) = mset (wr a2 l0 v)"
      and lo3: "\<forall>i. l0 \<le> i \<and> i < l1 \<longrightarrow> rd a3 i <s p"
      and hi3: "\<forall>i. l1 \<le> i \<and> i < k \<longrightarrow> \<not> rd a3 i <s p"
      by blast
    have ib3: "inb a3 i = inb a i" for i
      using same_outside_inb[OF so3] by (simp add: ib2)
    have il1: "inb a l1" using l1 l0 k by (auto simp: inb_def)
    define b where "b = wr (wr a3 k (rd a3 l1)) l1 p"
    have res: "partition_main a low high mid x = Inr (b, l1, (l0 - low) + (high - k) < x div 2)"
      unfolding unf Inr using gl k il1 by (simp add: ib3 b_def)
    have msb: "mset b = mset a"
    proof -
      have "mset b = mset (wr a3 k p)"
        unfolding b_def using k il1 by (intro mset_hole) (simp_all add: ib3)
      also have "\<dots> = mset (wr a2 l0 p)" using ms3 by simp
      also have "\<dots> = mset (wr a1 l0 p)" by (simp add: a2_def)
      also have "\<dots> = mset (wr a mid p)"
        unfolding a1_def using im l0 by (intro mset_hole) simp_all
      also have "\<dots> = mset a" by (simp add: p_def)
      finally show ?thesis .
    qed
    have so2: "same_outside a a2 low high"
      unfolding a2_def a1_def
      by (rule same_outside_trans[OF same_outside_wr same_outside_wr])
         (use bnd l0 l0m in \<open>auto simp: inb_def\<close>)
    have sob3: "same_outside a3 b low high"
      unfolding b_def
      by (rule same_outside_trans[OF same_outside_wr same_outside_wr])
         (use bnd l0 l1 k in \<open>auto simp: inb_def\<close>)
    have sob: "same_outside a b low high"
      by (rule same_outside_trans[OF so2 same_outside_trans[OF same_outside_mono[OF so3] sob3]])
         (use l0 k in auto)
    have rdb: "rd b i = (if i = l1 then p else if i = k then rd a3 l1 else rd a3 i)" if "inb a i" for i
      unfolding b_def using that k il1 by (simp add: rd_wr ib3)
    have lt: "rd b i <s p" if "low \<le> i" "i < l1" for i
    proof (cases "i < l0")
      case True
      then have ii: "inb a i" using that bnd l0 by (auto simp: inb_def)
      have "rd a3 i = rd a2 i" using so3 True ii unfolding same_outside_def by (simp add: ib2)
      also have "\<dots> = rd a i"
        unfolding a2_def a1_def using True l0m ii im l0 by (simp add: rd_wr)
      finally show ?thesis using below that True rdb[OF ii] l1 by auto
    next
      case False
      then have ii: "inb a i" using that l1 k l0 by (auto simp: inb_def)
      show ?thesis using lo3 False that rdb[OF ii] l1 by auto
    qed
    have ge: "p \<le>s rd b i" if "l1 < i" "i \<le> high" for i
    proof -
      have ii: "inb a i" using that l1 l0 bnd by (auto simp: inb_def)
      consider "i < k" | "i = k" | "k < i" by linarith
      then show ?thesis
      proof cases
        case 1
        then show ?thesis using hi3 that rdb[OF ii] by (auto simp: signed.not_less)
      next
        case 2
        then have "l1 < k" using that by simp
        then show ?thesis using hi3 l1 2 that rdb[OF ii] by (auto simp: signed.not_less)
      next
        case 3
        have "rd a3 i = rd a2 i" using so3 3 ii unfolding same_outside_def by (simp add: ib2)
        then show ?thesis using above 3 that rdb[OF ii] l1 by auto
      qed
    qed
    have "rd b l1 = p" using rdb[OF il1] by simp
    then show ?thesis
      using part[OF res] l0 l1 k msb sob lt ge by (auto simp: p_def)
  qed
qed

section \<open>Partition left\<close>

lemma plus_one_neq: "(h :: 'a::len word) + 1 \<noteq> h"
  by simp

lemma partition_left_run:
  fixes a :: "'a::len word list"
  assumes bnd: "inb a (low - 1)" "inb a high"
    and ex: "low \<le> j" "j \<le> high" "\<not> h <s rd a j"
  obtains g l a3 l1 where
    "low \<le> g" "g \<le> high" "\<not> h <s rd a g" "\<forall>i. g < i \<and> i \<le> high \<longrightarrow> h <s rd a i"
    "low \<le> l" "l \<le> g" "\<forall>i. low \<le> i \<and> i < l \<longrightarrow> rd a i = h" "l < g \<longrightarrow> rd a l \<noteq> h"
    "l \<le> l1" "l1 \<le> g" "same_outside a a3 l g"
    "\<forall>v. mset (wr a3 g v) = mset (wr a l v)"
    "\<forall>i. l \<le> i \<and> i < l1 \<longrightarrow> rd a3 i = h"
    "\<forall>i. l1 \<le> i \<and> i < g \<longrightarrow> rd a3 i \<noteq> h"
    "partition_left a low high h =
       Inr (wr (wr a3 g (rd a3 l1)) l1 (rd a l), l1 + (if rd a l = h then 1 else 0))"
proof -
  have inr: "inb a i" if "low \<le> i" "i \<le> high" for i
    using that bnd by (auto simp: inb_def)
  have ij: "inb a j" using ex by (intro inr)
  have "\<exists>j'. scan_down (\<lambda>v. h <s v) a (high + 1) = Inr j' \<and> j \<le> j'"
    by (intro scan_down_total) (use ij ex bnd in \<open>auto simp: inb_def\<close>)
  then obtain g where sd: "scan_down (\<lambda>v. h <s v) a (high + 1) = Inr g" and jg: "j \<le> g"
    by blast
  from scan_down_Inr[OF sd] have g: "g \<le> high" "inb a g" "\<not> h <s rd a g"
    and gt: "\<forall>i. g < i \<and> i \<le> high \<longrightarrow> h <s rd a i"
    by auto
  have lg: "low \<le> g" using ex jg by simp
  define a1 where "a1 = wr a g (h + 1)"
  have ib1: "inb a1 i = inb a i" for i by (simp add: a1_def)
  have "\<not> (rd a1 g = h)" using g plus_one_neq[of h] by (simp add: a1_def)
  then have "\<exists>j'. scan_up (\<lambda>v. v = h) a1 (low - 1) = Inr j' \<and> j' \<le> g"
    by (intro scan_up_total) (use g lg bnd in \<open>auto simp: a1_def inb_def\<close>)
  then obtain l where su: "scan_up (\<lambda>v. v = h) a1 (low - 1) = Inr l" and llg: "l \<le> g"
    by blast
  from scan_up_Inr[OF su] have l: "low \<le> l" "inb a l" "rd a1 l \<noteq> h"
    and eqs1: "\<forall>i. low \<le> i \<and> i < l \<longrightarrow> rd a1 i = h"
    by (auto simp: ib1)
  have eqs: "rd a i = h" if "low \<le> i" "i < l" for i
  proof -
    have "inb a i" using that l llg g by (intro inr) auto
    then have "rd a1 i = rd a i" unfolding a1_def using that llg g by (simp add: rd_wr)
    then show ?thesis using eqs1 that by simp
  qed
  have neq: "rd a l \<noteq> h" if "l < g"
  proof -
    have "rd a1 l = rd a l" unfolding a1_def using l g that by (simp add: rd_wr)
    then show ?thesis using l by simp
  qed
  have a2: "wr a1 g (rd a g) = a" by (simp add: a1_def)
  have "\<exists>b l'. gap_loop (\<lambda>v. v = h) a l l g = Inr (b, l', g) \<and> l \<le> l' \<and> l' \<le> g \<and>
      same_outside a b l g \<and>
      (\<forall>v. mset (wr b g v) = mset (wr a l v)) \<and>
      (\<forall>i. l \<le> i \<and> i < l' \<longrightarrow> rd b i = h) \<and>
      (\<forall>i. l' \<le> i \<and> i < g \<longrightarrow> \<not> rd b i = h)"
    by (rule gap_loop_post) (use llg l g in auto)
  then obtain a3 l1 where gl: "gap_loop (\<lambda>v. v = h) a l l g = Inr (a3, l1, g)"
    and l1: "l \<le> l1" "l1 \<le> g"
    and so3: "same_outside a a3 l g"
    and ms3: "\<forall>v. mset (wr a3 g v) = mset (wr a l v)"
    and lo3: "\<forall>i. l \<le> i \<and> i < l1 \<longrightarrow> rd a3 i = h"
    and hi3: "\<forall>i. l1 \<le> i \<and> i < g \<longrightarrow> rd a3 i \<noteq> h"
    by blast
  have ib3: "inb a3 i = inb a i" for i using same_outside_inb[OF so3] by simp
  have il1: "inb a l1" using l1 l g by (intro inr) auto
  have res: "partition_left a low high h =
      Inr (wr (wr a3 g (rd a3 l1)) l1 (rd a l), l1 + (if rd a l = h then 1 else 0))"
    unfolding partition_left_def sd using su gl g il1
    by (simp add: Let_def a1_def[symmetric] a2 ib3)
  show thesis
    using that[OF lg g(1) g(3) gt l(1) llg _ _ l1 so3 ms3 lo3 hi3 res] eqs neq by blast
qed

lemma partition_left_perm:
  fixes a :: "'a::len word list"
  assumes bnd: "inb a (low - 1)" "inb a high"
    and ex: "low \<le> j" "j \<le> high" "\<not> h <s rd a j"
  shows "\<exists>b l. partition_left a low high h = Inr (b, l) \<and>
      mset b = mset a \<and> same_outside a b low high"
proof -
  show ?thesis
  proof (rule partition_left_run[OF assms], goal_cases)
  case (1 g l a3 l1)
  note g = 1(1,2) and l = 1(5,6) and l1 = 1(9,10) and so3 = 1(11) and ms3 = 1(12) and res = 1(15)
  have inr: "inb a i" if "low \<le> i" "i \<le> high" for i
    using that bnd by (auto simp: inb_def)
  have ib3: "inb a3 i = inb a i" for i using same_outside_inb[OF so3] by simp
  have ig: "inb a g" and il1: "inb a l1" using g l l1 by (auto intro!: inr)
  define b where "b = wr (wr a3 g (rd a3 l1)) l1 (rd a l)"
  have "mset b = mset (wr a3 g (rd a l))"
    unfolding b_def using ig il1 by (intro mset_hole) (simp_all add: ib3)
  also have "\<dots> = mset (wr a l (rd a l))" using ms3 by simp
  finally have msb: "mset b = mset a" by simp
  have sob3: "same_outside a3 b low high"
    unfolding b_def
    by (rule same_outside_trans[OF same_outside_wr same_outside_wr])
       (use l l1 g il1 ig in \<open>auto simp: inb_def\<close>)
  have sob: "same_outside a b low high"
    by (rule same_outside_trans[OF same_outside_mono[OF so3] sob3]) (use l g in auto)
  show ?thesis using res msb sob by (simp add: b_def)
  qed
qed

text \<open>The values of a subrange are those of any permutation of it.\<close>

lemma slice_nth:
  assumes "0 \<le> low" "low \<le> i" "i \<le> high" "high < int (length c)"
  shows "nat (i - low) < length (slice c low high) \<and> slice c low high ! nat (i - low) = rd c i"
  using assms by (auto simp: slice_def rd_def nat_add_distrib[symmetric])

lemma slice_set:
  assumes "0 \<le> low" "high < int (length c)"
  shows "set (slice c low high) = {rd c i | i. low \<le> i \<and> i \<le> high}"
proof (intro set_eqI iffI)
  fix v assume "v \<in> set (slice c low high)"
  then obtain n where n: "n < length (slice c low high)" "slice c low high ! n = v"
    by (auto simp: in_set_conv_nth)
  then have "rd c (low + int n) = v" "low + int n \<le> high"
    using assms by (auto simp: slice_def rd_def nat_add_distrib)
  then show "v \<in> {rd c i | i. low \<le> i \<and> i \<le> high}"
    by (metis (mono_tags, lifting) le_add_same_cancel1 mem_Collect_eq of_nat_0_le_iff)
next
  fix v assume "v \<in> {rd c i | i. low \<le> i \<and> i \<le> high}"
  then obtain i where "low \<le> i" "i \<le> high" "v = rd c i" by blast
  then show "v \<in> set (slice c low high)"
    using slice_nth[of low i high c] assms by (metis nth_mem)
qed

lemma perm_values:
  assumes "mset b = mset a" "same_outside a b low high" "0 \<le> low" "high < int (length a)"
  shows "{rd b i | i. low \<le> i \<and> i \<le> high} = {rd a i | i. low \<le> i \<and> i \<le> high}"
proof -
  have "length b = length a" using assms by (simp add: same_outside_def)
  then have "set (slice b low high) = {rd b i | i. low \<le> i \<and> i \<le> high}"
    using assms by (intro slice_set) auto
  moreover have "set (slice a low high) = {rd a i | i. low \<le> i \<and> i \<le> high}"
    using assms by (intro slice_set) auto
  moreover have "set (slice b low high) = set (slice a low high)"
    using slice_perm[OF assms(1,2,3)] by (rule mset_eq_setD)
  ultimately show ?thesis by simp
qed

lemma partition_left_post:
  fixes a :: "'a::len word list"
  assumes bnd: "inb a (low - 1)" "inb a high"
    and ex: "low \<le> j" "j \<le> high" "rd a j = h"
    and ge: "\<forall>i. low \<le> i \<and> i \<le> high \<longrightarrow> h \<le>s rd a i"
  shows "\<exists>b l. partition_left a low high h = Inr (b, l) \<and> low < l \<and> l \<le> high + 1 \<and>
      mset b = mset a \<and> same_outside a b low high \<and>
      (\<forall>i. low \<le> i \<and> i < l \<longrightarrow> rd b i = h) \<and>
      (\<forall>i. l \<le> i \<and> i \<le> high \<longrightarrow> h <s rd b i)"
proof -
  have ex': "\<not> h <s rd a j" using ex by simp
  show ?thesis
  proof (rule partition_left_run[OF bnd ex(1,2) ex'], goal_cases)
  case (1 g l a3 l1)
  note g = 1(1,2,3) and gt = 1(4) and l = 1(5) and llg = 1(6) and eqs = 1(7) and neq = 1(8)
    and l1 = 1(9,10) and so3 = 1(11) and lo3 = 1(13) and hi3 = 1(14) and res = 1(15)
  from partition_left_perm[OF bnd ex(1,2) ex'] res
  have perm: "mset (wr (wr a3 g (rd a3 l1)) l1 (rd a l)) = mset a"
    "same_outside a (wr (wr a3 g (rd a3 l1)) l1 (rd a l)) low high"
    by auto
  define p where "p = rd a l"
  define b where "b = wr (wr a3 g (rd a3 l1)) l1 p"
  define l2 where "l2 = l1 + (if p = h then 1 else 0)"
  note res = res[folded p_def, folded b_def l2_def]
  note msb = perm(1)[folded p_def, folded b_def]
  note sob = perm(2)[folded p_def, folded b_def]
  have inr: "inb a i" if "low \<le> i" "i \<le> high" for i
    using that bnd by (auto simp: inb_def)
  have ig: "inb a g" and il1: "inb a l1" using g l llg l1 by (auto intro!: inr)
  have ag: "rd a g = h"
    using g ge by (meson signed.not_less signed.order.antisym)
  have ib3: "inb a3 i = inb a i" for i using same_outside_inb[OF so3] by simp
  have rdb: "rd b i = (if i = l1 then p else if i = g then rd a3 l1 else rd a3 i)" if "inb a i" for i
    unfolding b_def using that ig il1 by (simp add: rd_wr ib3)
  have a3_out: "rd a3 i = rd a i" if "inb a i" "i < l \<or> g < i" for i
    using so3 that unfolding same_outside_def by blast
  have vals: "{rd b i | i. low \<le> i \<and> i \<le> high} = {rd a i | i. low \<le> i \<and> i \<le> high}"
    by (rule perm_values[OF msb sob]) (use bnd in \<open>auto simp: inb_def\<close>)
  have geb: "h \<le>s rd b i" if "low \<le> i" "i \<le> high" for i
  proof -
    have "rd b i \<in> {rd a i | i. low \<le> i \<and> i \<le> high}" using vals that by blast
    then show ?thesis using ge by auto
  qed
  show ?thesis
  proof (cases "l = g")
    case True
    then have "l1 = g" using l1 by simp
    have pg: "p = h" using True ag by (simp add: p_def)
    have eqb: "rd b i = h" if "low \<le> i" "i < l2" for i
    proof (cases "i = g")
      case True
      then show ?thesis using rdb[OF ig] \<open>l1 = g\<close> pg by simp
    next
      case False
      then have lt: "i < l" using that \<open>l1 = g\<close> \<open>l = g\<close> pg by (simp add: l2_def)
      then have ii: "inb a i" using that l llg g by (intro inr) auto
      have "rd b i = rd a3 i" using rdb[OF ii] False \<open>l1 = g\<close> by simp
      also have "\<dots> = rd a i" using a3_out[OF ii] lt by simp
      finally show ?thesis using eqs that lt by simp
    qed
    have gtb: "h <s rd b i" if "l2 \<le> i" "i \<le> high" for i
    proof -
      have gi: "g < i" using that \<open>l1 = g\<close> pg by (simp add: l2_def)
      then have ii: "inb a i" using that g by (intro inr) auto
      have "rd b i = rd a3 i" using rdb[OF ii] gi \<open>l1 = g\<close> by simp
      also have "\<dots> = rd a i" using a3_out[OF ii] gi by simp
      finally show ?thesis using gt gi that by simp
    qed
    have "low < l2" "l2 \<le> high + 1" using \<open>l1 = g\<close> pg g by (auto simp: l2_def)
    then show ?thesis using res msb sob eqb gtb by blast
  next
    case False
    then have lg': "l < g" using llg by simp
    then have ph: "p \<noteq> h" using neq by (simp add: p_def)
    then have l2: "l2 = l1" by (simp add: l2_def)
    have eqb: "rd b i = h" if "low \<le> i" "i < l2" for i
    proof -
      have ii: "inb a i" using that l1 g l2 by (intro inr) auto
      have "rd b i = rd a3 i" using rdb[OF ii] that l2 l1 by auto
      then show ?thesis
        using lo3 eqs a3_out[OF ii] that l2 by (cases "i < l") auto
    qed
    have neb: "rd b i \<noteq> h" if "l2 \<le> i" "i \<le> high" for i
    proof -
      note rng = that
      have ii: "inb a i" using rng l1 l l2 by (intro inr) auto
      consider "i = l1" | "l1 < i" "i < g" | "l1 < i" "i = g" | "g < i"
        using rng l2 by fastforce
      then show ?thesis
      proof cases
        case 1
        then show ?thesis using rdb[OF ii] ph by simp
      next
        case 2
        then show ?thesis using rdb[OF ii] hi3 by simp
      next
        case 3
        then show ?thesis using rdb[OF ii] hi3 by simp
      next
        case 4
        then have "rd b i = rd a i" using rdb[OF ii] a3_out[OF ii] l1 by simp
        then show ?thesis using gt 4 rng by auto
      qed
    qed
    have gtb: "h <s rd b i" if "l2 \<le> i" "i \<le> high" for i
      using neb[OF that] geb[of i] that l1 l l2
      by (metis signed.less_le order_trans)
    have "low < l2"
    proof (rule ccontr)
      assume "\<not> low < l2"
      then have "l2 = low" using l l1 l2 by auto
      then have "\<forall>i. low \<le> i \<and> i \<le> high \<longrightarrow> rd b i \<noteq> h" using neb by simp
      moreover have "h \<in> {rd b i | i. low \<le> i \<and> i \<le> high}" using vals ex by blast
      ultimately show False by blast
    qed
    moreover have "l2 \<le> high + 1" using l2 l1 g by simp
    ultimately show ?thesis using res msb sob eqb gtb by blast
  qed
  qed
qed

section \<open>The candidate pivots\<close>

lemma length_move_down [simp]: "length (move_down a hi lo e) = length a"
  by (simp add: move_down_def)

lemma inb_move_down [simp]: "inb (move_down a hi lo e) i = inb a i"
  by (simp add: inb_def)

lemma mset_move_down:
  "inb a hi \<Longrightarrow> inb a lo \<Longrightarrow> rd a hi = e \<Longrightarrow> mset (move_down a hi lo e) = mset a"
  using mset_swap_wr[of a hi lo] by (simp add: move_down_def)

lemma rd_move_down_lo [simp]: "inb a lo \<Longrightarrow> rd (move_down a hi lo e) lo = e"
  by (simp add: move_down_def)

lemma rd_move_down:
  "inb a hi \<Longrightarrow> inb a lo \<Longrightarrow> inb a i \<Longrightarrow>
    rd (move_down a hi lo e) i = (if i = lo then e else if i = hi then rd a lo else rd a i)"
  by (simp add: move_down_def rd_wr)

lemma mset_sort_sl: "inb a cl \<Longrightarrow> inb a sl \<Longrightarrow> mset (sort_sl a cl sl) = mset a"
  by (simp add: sort_sl_def Let_def mset_move_down)

lemma mset_sort_mid:
  "inb a cl \<Longrightarrow> inb a sl \<Longrightarrow> inb a mid \<Longrightarrow> mset (sort_mid a cl sl mid) = mset a"
  by (simp add: sort_mid_def Let_def mset_move_down)

lemma mset_sort_sr:
  "inb a cl \<Longrightarrow> inb a sl \<Longrightarrow> inb a mid \<Longrightarrow> inb a sr \<Longrightarrow> mset (sort_sr a cl sl mid sr) = mset a"
  by (simp add: sort_sr_def Let_def mset_move_down)

lemma mset_sort_cr:
  "inb a cl \<Longrightarrow> inb a sl \<Longrightarrow> inb a mid \<Longrightarrow> inb a sr \<Longrightarrow> inb a cr \<Longrightarrow>
    mset (sort_cr a cl sl mid sr cr) = mset a"
  by (simp add: sort_cr_def Let_def mset_move_down)

lemma length_sort_sl [simp]: "length (sort_sl a cl sl) = length a"
  by (simp add: sort_sl_def Let_def)

lemma length_sort_mid [simp]: "length (sort_mid a cl sl mid) = length a"
  by (simp add: sort_mid_def Let_def)

lemma length_sort_sr [simp]: "length (sort_sr a cl sl mid sr) = length a"
  by (simp add: sort_sr_def Let_def)

lemma length_sort_cr [simp]: "length (sort_cr a cl sl mid sr cr) = length a"
  by (simp add: sort_cr_def Let_def)

lemma inb_sort_sl [simp]: "inb (sort_sl a cl sl) i = inb a i"
  by (simp add: inb_def)

lemma inb_sort_mid [simp]: "inb (sort_mid a cl sl mid) i = inb a i"
  by (simp add: inb_def)

lemma inb_sort_sr [simp]: "inb (sort_sr a cl sl mid sr) i = inb a i"
  by (simp add: inb_def)

lemma inb_sort_cr [simp]: "inb (sort_cr a cl sl mid sr cr) i = inb a i"
  by (simp add: inb_def)

lemma mset_sort_candidates:
  assumes "inb a cl" "inb a sl" "inb a mid" "inb a sr" "inb a cr"
  shows "mset (sort_candidates a cl sl mid sr cr) = mset a"
  unfolding sort_candidates_def
  using assms
  by (simp add: mset_sort_cr mset_sort_sr mset_sort_mid mset_sort_sl)

lemma length_sort_candidates [simp]: "length (sort_candidates a cl sl mid sr cr) = length a"
  by (simp add: sort_candidates_def)

lemma sort_sl_sorted:
  assumes "inb a cl" "inb a sl" "cl < sl"
  shows "rd (sort_sl a cl sl) cl \<le>s rd (sort_sl a cl sl) sl"
  using assms by (auto simp: sort_sl_def Let_def rd_move_down word_sless_alt word_sle_eq)

lemma sort_mid_sorted:
  assumes "inb a cl" "inb a sl" "inb a mid" "cl < sl" "sl < mid"
    and "rd a cl \<le>s rd a sl"
  shows "rd (sort_mid a cl sl mid) cl \<le>s rd (sort_mid a cl sl mid) sl \<and>
         rd (sort_mid a cl sl mid) sl \<le>s rd (sort_mid a cl sl mid) mid"
  using assms by (auto simp: sort_mid_def Let_def rd_move_down word_sless_alt word_sle_eq)

lemma sort_sr_sorted:
  assumes "inb a cl" "inb a sl" "inb a mid" "inb a sr" "cl < sl" "sl < mid" "mid < sr"
    and "rd a cl \<le>s rd a sl" "rd a sl \<le>s rd a mid"
  shows "rd (sort_sr a cl sl mid sr) cl \<le>s rd (sort_sr a cl sl mid sr) sl \<and>
         rd (sort_sr a cl sl mid sr) sl \<le>s rd (sort_sr a cl sl mid sr) mid \<and>
         rd (sort_sr a cl sl mid sr) mid \<le>s rd (sort_sr a cl sl mid sr) sr"
  using assms by (auto simp: sort_sr_def Let_def rd_move_down word_sless_alt word_sle_eq)

lemma sort_cr_sorted:
  assumes "inb a cl" "inb a sl" "inb a mid" "inb a sr" "inb a cr"
    "cl < sl" "sl < mid" "mid < sr" "sr < cr"
    and "rd a cl \<le>s rd a sl" "rd a sl \<le>s rd a mid" "rd a mid \<le>s rd a sr"
  shows "rd (sort_cr a cl sl mid sr cr) cl \<le>s rd (sort_cr a cl sl mid sr cr) sl \<and>
         rd (sort_cr a cl sl mid sr cr) sl \<le>s rd (sort_cr a cl sl mid sr cr) mid \<and>
         rd (sort_cr a cl sl mid sr cr) mid \<le>s rd (sort_cr a cl sl mid sr cr) sr \<and>
         rd (sort_cr a cl sl mid sr cr) sr \<le>s rd (sort_cr a cl sl mid sr cr) cr"
  using assms by (auto simp: sort_cr_def Let_def rd_move_down word_sless_alt word_sle_eq)

lemma rd_sort_sl_other:
  "inb a cl \<Longrightarrow> inb a sl \<Longrightarrow> inb a i \<Longrightarrow> i \<noteq> cl \<Longrightarrow> i \<noteq> sl \<Longrightarrow> rd (sort_sl a cl sl) i = rd a i"
  by (simp add: sort_sl_def Let_def rd_move_down)

lemma rd_sort_mid_other:
  "inb a cl \<Longrightarrow> inb a sl \<Longrightarrow> inb a mid \<Longrightarrow> inb a i \<Longrightarrow> i \<noteq> cl \<Longrightarrow> i \<noteq> sl \<Longrightarrow> i \<noteq> mid \<Longrightarrow>
    rd (sort_mid a cl sl mid) i = rd a i"
  by (simp add: sort_mid_def Let_def rd_move_down)

lemma rd_sort_sr_other:
  "inb a cl \<Longrightarrow> inb a sl \<Longrightarrow> inb a mid \<Longrightarrow> inb a sr \<Longrightarrow> inb a i \<Longrightarrow>
    i \<noteq> cl \<Longrightarrow> i \<noteq> sl \<Longrightarrow> i \<noteq> mid \<Longrightarrow> i \<noteq> sr \<Longrightarrow>
    rd (sort_sr a cl sl mid sr) i = rd a i"
  by (simp add: sort_sr_def Let_def rd_move_down)

lemma rd_sort_cr_other:
  "inb a cl \<Longrightarrow> inb a sl \<Longrightarrow> inb a mid \<Longrightarrow> inb a sr \<Longrightarrow> inb a cr \<Longrightarrow> inb a i \<Longrightarrow>
    i \<noteq> cl \<Longrightarrow> i \<noteq> sl \<Longrightarrow> i \<noteq> mid \<Longrightarrow> i \<noteq> sr \<Longrightarrow> i \<noteq> cr \<Longrightarrow>
    rd (sort_cr a cl sl mid sr cr) i = rd a i"
  by (simp add: sort_cr_def Let_def rd_move_down)

lemma rd_sort_candidates_other:
  assumes "inb a cl" "inb a sl" "inb a mid" "inb a sr" "inb a cr" "inb a i"
    "i \<noteq> cl" "i \<noteq> sl" "i \<noteq> mid" "i \<noteq> sr" "i \<noteq> cr"
  shows "rd (sort_candidates a cl sl mid sr cr) i = rd a i"
  unfolding sort_candidates_def using assms
  by (simp add: rd_sort_cr_other rd_sort_sr_other rd_sort_mid_other rd_sort_sl_other)

lemma sort_candidates_sorted:
  assumes ib: "inb a cl" "inb a sl" "inb a mid" "inb a sr" "inb a cr"
    and ord: "cl < sl" "sl < mid" "mid < sr" "sr < cr"
  defines "b \<equiv> sort_candidates a cl sl mid sr cr"
  shows "rd b cl \<le>s rd b sl \<and> rd b sl \<le>s rd b mid \<and> rd b mid \<le>s rd b sr \<and> rd b sr \<le>s rd b cr"
proof -
  define a1 where "a1 = sort_sl a cl sl"
  define a2 where "a2 = sort_mid a1 cl sl mid"
  define a3 where "a3 = sort_sr a2 cl sl mid sr"
  have b: "b = sort_cr a3 cl sl mid sr cr"
    by (simp add: b_def sort_candidates_def a1_def a2_def a3_def)
  have 1: "rd a1 cl \<le>s rd a1 sl"
    unfolding a1_def by (rule sort_sl_sorted) (use ib ord in auto)
  have 2: "rd a2 cl \<le>s rd a2 sl \<and> rd a2 sl \<le>s rd a2 mid"
    unfolding a2_def by (rule sort_mid_sorted) (use ib ord 1 in \<open>auto simp: a1_def\<close>)
  have 3: "rd a3 cl \<le>s rd a3 sl \<and> rd a3 sl \<le>s rd a3 mid \<and> rd a3 mid \<le>s rd a3 sr"
    unfolding a3_def by (rule sort_sr_sorted) (use ib ord 2 in \<open>auto simp: a1_def a2_def\<close>)
  show ?thesis
    unfolding b by (rule sort_cr_sorted) (use ib ord 3 in \<open>auto simp: a1_def a2_def a3_def\<close>)
qed

section \<open>The rotation\<close>

lemma length_exchange [simp]: "length (exchange a i j) = length a"
  by (simp add: exchange_def)

lemma inb_exchange [simp]: "inb (exchange a i j) k = inb a k"
  by (simp add: inb_def)

lemma mset_exchange: "inb a i \<Longrightarrow> inb a j \<Longrightarrow> mset (exchange a i j) = mset a"
  by (simp add: exchange_def mset_swap_wr)

lemma rd_exchange:
  "inb a i \<Longrightarrow> inb a j \<Longrightarrow> inb a k \<Longrightarrow>
    rd (exchange a i j) k = (if k = j then rd a i else if k = i then rd a j else rd a k)"
  by (simp add: exchange_def rd_wr)

lemma swap_rotate_step:
  "u < mid \<Longrightarrow> inb a u \<Longrightarrow> inb a q \<Longrightarrow>
    swap_rotate a u q mid = swap_rotate (exchange a u q) (u + 1) (q - 1) mid"
  by (subst swap_rotate.simps) (simp add: Let_def exchange_def)

lemma swap_rotate_exit: "\<not> u < mid \<Longrightarrow> swap_rotate a u q mid = Inr a"
  by (subst swap_rotate.simps) simp

text \<open>The loop from its \<open>k\<close>-th pass on is the rest of the fold.\<close>

lemma swap_rotate_foldl:
  assumes "0 \<le> low" "high < int (length a)" "low + int n \<le> high + 1" "k \<le> n"
  shows "swap_rotate a (low + int k) (high - int k) (low + int n) =
    Inr (foldl (\<lambda>b i. exchange b (low + int i) (high - int i)) a [k..<n])"
  using assms
proof (induction "n - k" arbitrary: k a)
  case 0
  then show ?case by (simp add: swap_rotate_exit)
next
  case (Suc m)
  then have kn: "k < n" by simp
  have ib: "inb a (low + int k)" "inb a (high - int k)"
    using Suc.prems kn by (auto simp: inb_def)
  have "swap_rotate a (low + int k) (high - int k) (low + int n) =
      swap_rotate (exchange a (low + int k) (high - int k)) (low + int (Suc k)) (high - int (Suc k)) (low + int n)"
    using swap_rotate_step[of "low + int k" "low + int n" a "high - int k"] kn ib
    by (simp add: algebra_simps)
  also have "\<dots> = Inr (foldl (\<lambda>b i. exchange b (low + int i) (high - int i))
      (exchange a (low + int k) (high - int k)) [Suc k..<n])"
    using Suc.hyps Suc.prems kn by (intro Suc.hyps(1)) auto
  also have "[k..<n] = k # [Suc k..<n]" using kn by (simp add: upt_conv_Cons)
  then have "foldl (\<lambda>b i. exchange b (low + int i) (high - int i))
      (exchange a (low + int k) (high - int k)) [Suc k..<n]
    = foldl (\<lambda>b i. exchange b (low + int i) (high - int i)) a [k..<n]"
    by simp
  finally show ?case .
qed

lemma swap_rotate_refines:
  assumes "inb a low" "inb a high" "low \<le> mid" "mid \<le> high + 1"
  shows "swap_rotate a low high mid = Inr (swap_pairs a low high (nat (mid - low)))"
  using swap_rotate_foldl[of low high a "nat (mid - low)" 0] assms
  by (simp add: swap_pairs_def inb_def)

lemma swap_pairs_perm:
  assumes "0 \<le> low" "high < int (length a)" "low + int n \<le> high + 1"
  shows "mset (swap_pairs a low high n) = mset a \<and> same_outside a (swap_pairs a low high n) low high"
  using assms
proof (induction n)
  case 0
  then show ?case by (simp add: swap_pairs_def)
next
  case (Suc n)
  define b where "b = swap_pairs a low high n"
  have IH: "mset b = mset a" "same_outside a b low high"
    using Suc by (auto simp: b_def)
  have len: "length b = length a" using IH by (simp add: same_outside_def)
  have ib: "inb b (low + int n)" "inb b (high - int n)"
    using Suc.prems len by (auto simp: inb_def)
  have step: "swap_pairs a low high (Suc n) = exchange b (low + int n) (high - int n)"
    by (simp add: swap_pairs_def b_def)
  have "same_outside b (exchange b (low + int n) (high - int n)) low high"
    unfolding exchange_def
    by (rule same_outside_trans[OF same_outside_wr same_outside_wr])
       (use Suc.prems in auto)
  then show ?case
    using IH ib by (auto simp: step mset_exchange intro: same_outside_trans)
qed

text \<open>What the swaps do to each place.\<close>

lemma swap_pairs_rd:
  assumes "0 \<le> low" "high < int (length a)" "low + int n \<le> high + 1 - int n" "inb a i"
  shows "rd (swap_pairs a low high n) i =
    (if low \<le> i \<and> i < low + int n then rd a (high - (i - low))
     else if high - int n < i \<and> i \<le> high then rd a (low + (high - i))
     else rd a i)"
  using assms
proof (induction n arbitrary: i)
  case 0
  then show ?case by (auto simp: swap_pairs_def)
next
  case (Suc n)
  define b where "b = swap_pairs a low high n"
  have len: "length b = length a"
    using swap_pairs_perm[of low high a n] Suc.prems by (simp add: same_outside_def b_def)
  have ib: "inb b (low + int n)" "inb b (high - int n)" "inb b i"
    using Suc.prems len by (auto simp: inb_def)
  have step: "swap_pairs a low high (Suc n) = exchange b (low + int n) (high - int n)"
    by (simp add: swap_pairs_def b_def)
  have IH: "rd b j =
    (if low \<le> j \<and> j < low + int n then rd a (high - (j - low))
     else if high - int n < j \<and> j \<le> high then rd a (low + (high - j))
     else rd a j)" if "inb a j" for j
    unfolding b_def using Suc.prems that by (intro Suc.IH) auto
  have ia: "inb a (low + int n)" "inb a (high - int n)"
    using Suc.prems by (auto simp: inb_def)
  show ?case
    unfolding step using Suc.prems ib
    by (auto simp: rd_exchange IH[OF ia(1)] IH[OF ia(2)] IH[OF \<open>inb a i\<close>] algebra_simps)
qed

section \<open>scramble\<close>

lemma swap_exchange: "inb a i \<Longrightarrow> inb a j \<Longrightarrow> swap a i j = Inr (exchange a i j)"
  by (simp add: swap_def exchange_def Let_def)

lemma swap_perm:
  assumes "swap a i j = Inr b" "low \<le> i" "i \<le> high" "low \<le> j" "j \<le> high"
  shows "mset b = mset a \<and> same_outside a b low high"
proof -
  have ib: "inb a i" "inb a j" using assms(1) by (auto simp: swap_def split: if_splits)
  then have b: "b = exchange a i j" using assms(1) by (simp add: swap_exchange)
  have "same_outside a (exchange a i j) low high"
    unfolding exchange_def
    by (rule same_outside_trans[OF same_outside_wr same_outside_wr])
       (use assms ib in \<open>auto simp: inb_def\<close>)
  then show ?thesis using ib by (simp add: b mset_exchange)
qed

lemma scramble_perm:
  assumes "scramble a low high len = Inr b" "0 \<le> len" "len \<le> high - low"
  shows "mset b = mset a \<and> same_outside a b low high"
proof (cases "InsertionThreshold \<le> len")
  case False
  then show ?thesis using assms by (simp add: scramble_def)
next
  case True
  define f where "f = len div 4"
  have f: "22 \<le> f" "f \<le> len" "4 * f \<le> len"
    using True assms by (auto simp: f_def InsertionThreshold_def)
  from assms(1) True obtain a1 a2 where
    s1: "swap a low (low + f) = Inr a1" and s2: "swap a1 high (high - f) = Inr a2"
    by (auto simp: scramble_def Let_def f_def split: sum.splits if_splits)
  have p1: "mset a1 = mset a \<and> same_outside a a1 low high"
    by (rule swap_perm[OF s1]) (use f assms in auto)
  have p2: "mset a2 = mset a1 \<and> same_outside a1 a2 low high"
    by (rule swap_perm[OF s2]) (use f assms in auto)
  show ?thesis
  proof (cases "LargeDataThreshold < len")
    case False
    then have "b = a2" using assms(1) True s1 s2 by (simp add: scramble_def Let_def f_def)
    then show ?thesis using p1 p2 by (auto intro: same_outside_trans)
  next
    case large: True
    from assms(1) True large s1 s2 obtain a3 a4 a5 where
      s3: "swap a2 (low + 1) (low + (f + 1)) = Inr a3" and
      s4: "swap a3 (low + 2) (low + (f + 2)) = Inr a4" and
      s5: "swap a4 (high - 2) (high - (f + 2)) = Inr a5" and
      s6: "swap a5 (high - 1) (high - (f + 1)) = Inr b"
      by (auto simp: scramble_def Let_def f_def split: sum.splits)
    have len: "128 < len" using large by (simp add: LargeDataThreshold_def)
    have p3: "mset a3 = mset a2 \<and> same_outside a2 a3 low high"
      by (rule swap_perm[OF s3]) (use f len assms in auto)
    have p4: "mset a4 = mset a3 \<and> same_outside a3 a4 low high"
      by (rule swap_perm[OF s4]) (use f len assms in auto)
    have p5: "mset a5 = mset a4 \<and> same_outside a4 a5 low high"
      by (rule swap_perm[OF s5]) (use f len assms in auto)
    have p6: "mset b = mset a5 \<and> same_outside a5 b low high"
      by (rule swap_perm[OF s6]) (use f len assms in auto)
    have "same_outside a a3 low high"
      using p1 p2 p3 by (blast intro: same_outside_trans)
    moreover have "same_outside a3 b low high"
      using p4 p5 p6 by (blast intro: same_outside_trans)
    ultimately have "same_outside a b low high" by (rule same_outside_trans)
    then show ?thesis using p1 p2 p3 p4 p5 p6 by simp
  qed
qed

lemma scramble_total:
  assumes "inb a low" "inb a high" "0 \<le> len" "len \<le> high - low"
  shows "\<exists>b. scramble a low high len = Inr b"
proof -
  have ib: "inb c i" if "length c = length a" "low \<le> i" "i \<le> high" for c i
    using that assms by (auto simp: inb_def)
  have ex: "inb (exchange c i j) k = inb c k" for c :: "'a list" and i j k by simp
  show ?thesis
    using assms
    by (auto simp: scramble_def Let_def swap_exchange ib InsertionThreshold_def LargeDataThreshold_def)
qed

section \<open>Insertion sort, guarded\<close>

lemma ascending_sorted_wrt:
  assumes "0 \<le> low" "high < int (length a)"
  shows "ascending a low high \<longleftrightarrow> sorted_wrt (\<le>s) (slice a low high)"
proof
  assume asc: "ascending a low high"
  show "sorted_wrt (\<le>s) (slice a low high)"
    unfolding sorted_wrt_iff_nth_less
  proof (intro allI impI)
    fix m n assume mn: "m < n" "n < length (slice a low high)"
    then have "slice a low high ! m = rd a (low + int m)" "slice a low high ! n = rd a (low + int n)"
      "low + int n \<le> high"
      using assms by (auto simp: slice_def rd_def nat_add_distrib)
    then show "slice a low high ! m \<le>s slice a low high ! n"
      using asc mn unfolding ascending_def by simp
  qed
next
  assume srt: "sorted_wrt (\<le>s) (slice a low high)"
  show "ascending a low high"
    unfolding ascending_def
  proof (intro allI impI)
    fix i j assume ij: "low \<le> i \<and> i \<le> j \<and> j \<le> high"
    have i: "nat (i - low) < length (slice a low high) \<and> slice a low high ! nat (i - low) = rd a i"
      by (rule slice_nth) (use ij assms in auto)
    have j: "nat (j - low) < length (slice a low high) \<and> slice a low high ! nat (j - low) = rd a j"
      by (rule slice_nth) (use ij assms in auto)
    show "rd a i \<le>s rd a j"
    proof (cases "i = j")
      case True
      then show ?thesis by simp
    next
      case False
      then have "nat (i - low) < nat (j - low)" using ij by auto
      then show ?thesis using srt i j unfolding sorted_wrt_iff_nth_less by metis
    qed
  qed
qed

lemma ins_guarded_step:
  "l \<le> j \<Longrightarrow> inb a j \<Longrightarrow> inb a (j + 1) \<Longrightarrow> t <s rd a j \<Longrightarrow>
    ins_guarded a l t j = ins_guarded (wr a (j + 1) (rd a j)) l t (j - 1)"
  by (subst ins_guarded.simps) simp

lemma ins_guarded_stop:
  "\<not> l \<le> j \<or> (inb a j \<and> \<not> t <s rd a j) \<Longrightarrow> ins_guarded a l t j = Inr (a, j)"
  by (subst ins_guarded.simps) auto

lemma ins_guarded_post:
  assumes "inb a l" "inb a (j + 1)" "l \<le> j + 1"
  shows "\<exists>b j'. ins_guarded a l t j = Inr (b, j') \<and> l - 1 \<le> j' \<and> j' \<le> j \<and>
     same_outside a b (j' + 2) (j + 1) \<and>
     (\<forall>i. j' + 1 < i \<and> i \<le> j + 1 \<longrightarrow> rd b i = rd a (i - 1) \<and> t <s rd a (i - 1)) \<and>
     (l \<le> j' \<longrightarrow> \<not> t <s rd a j') \<and>
     (\<forall>v. mset (wr b (j' + 1) v) = mset (wr a (j + 1) v))"
  using assms
proof (induction "nat (j + 1 - l)" arbitrary: a j rule: less_induct)
  case less
  show ?case
  proof (cases "l \<le> j \<and> t <s rd a j")
    case False
    have "inb a j" if "l \<le> j" using that less.prems by (auto simp: inb_def)
    then have "ins_guarded a l t j = Inr (a, j)"
      using False by (intro ins_guarded_stop) auto
    then show ?thesis using False less.prems by auto
  next
    case True
    have ij: "inb a j" using True less.prems by (auto simp: inb_def)
    define a1 where "a1 = wr a (j + 1) (rd a j)"
    have step: "ins_guarded a l t j = ins_guarded a1 l t (j - 1)"
      unfolding a1_def using True ij less.prems by (intro ins_guarded_step) auto
    have "nat (j - 1 + 1 - l) < nat (j + 1 - l)" using True by simp
    from less.hyps[OF this, of a1] obtain b j' where
      run: "ins_guarded a1 l t (j - 1) = Inr (b, j')" and
      jj: "l - 1 \<le> j'" "j' \<le> j - 1" and
      so: "same_outside a1 b (j' + 2) j" and
      sh: "\<forall>i. j' + 1 < i \<and> i \<le> j \<longrightarrow> rd b i = rd a1 (i - 1) \<and> t <s rd a1 (i - 1)" and
      st: "l \<le> j' \<longrightarrow> \<not> t <s rd a1 j'" and
      ms: "\<forall>v. mset (wr b (j' + 1) v) = mset (wr a1 j v)"
      using less.prems ij True by (auto simp: a1_def)
    have r1: "rd a1 i = rd a i" if "inb a i" "i \<le> j" for i
      unfolding a1_def using that less.prems by (simp add: rd_wr)
    have inr: "inb a i" if "l \<le> i" "i \<le> j + 1" for i
      using that less.prems by (auto simp: inb_def)
    have so': "same_outside a b (j' + 2) (j + 1)"
    proof (rule same_outside_trans)
      show "same_outside a a1 (j' + 2) (j + 1)"
        unfolding a1_def by (rule same_outside_wr) (use jj less.prems in \<open>auto simp: inb_def\<close>)
      show "same_outside a1 b (j' + 2) (j + 1)"
        by (rule same_outside_mono[OF so]) auto
    qed
    have sh': "rd b i = rd a (i - 1) \<and> t <s rd a (i - 1)" if "j' + 1 < i" "i \<le> j + 1" for i
    proof (cases "i = j + 1")
      case True
      have "rd b (j + 1) = rd a1 (j + 1)"
        using so less.prems unfolding same_outside_def by (simp add: a1_def)
      also have "\<dots> = rd a j" using less.prems by (simp add: a1_def)
      finally show ?thesis using True \<open>l \<le> j \<and> t <s rd a j\<close> by simp
    next
      case False
      then have "i \<le> j" using that by simp
      moreover have "inb a (i - 1)" using that jj by (intro inr) auto
      ultimately show ?thesis using sh that r1[of "i - 1"] by auto
    qed
    have st': "\<not> t <s rd a j'" if "l \<le> j'"
      using st that r1[of j'] inr[of j'] jj by auto
    have ms': "mset (wr b (j' + 1) v) = mset (wr a (j + 1) v)" for v
    proof -
      have "mset (wr a1 j v) = mset (wr a (j + 1) v)"
        unfolding a1_def using ij less.prems by (intro mset_hole) auto
      then show ?thesis using ms by simp
    qed
    show ?thesis
      using step run jj so' sh' st' ms' by auto
  qed
qed

text \<open>Inserting \<open>t\<close> into the hole left by the inner loop keeps the prefix ascending.\<close>

lemma insert_ascending:
  fixes a :: "'a::len word list"
  assumes asc: "ascending a l (i - 1)"
    and ib: "inb a l" "inb a i" "l \<le> i"
    and jj: "l - 1 \<le> j" "j \<le> i - 1"
    and so: "same_outside a b (j + 2) i"
    and sh: "\<forall>k. j + 1 < k \<and> k \<le> i \<longrightarrow> rd b k = rd a (k - 1) \<and> t <s rd a (k - 1)"
    and st: "l \<le> j \<longrightarrow> \<not> t <s rd a j"
  shows "ascending (wr b (j + 1) t) l i"
proof -
  define c where "c = wr b (j + 1) t"
  have len: "length b = length a" using so by (simp add: same_outside_def)
  have inr: "inb a k" if "l \<le> k" "k \<le> i" for k
    using that ib by (auto simp: inb_def)
  have inrb: "inb b k" if "l \<le> k" "k \<le> i" for k
    using inr[OF that] len by (simp add: inb_def)
  have lo: "rd c k = rd a k" if "l \<le> k" "k \<le> j" for k
  proof -
    have "rd c k = rd b k"
      unfolding c_def using that jj inrb[of k] inrb[of "j + 1"] by (simp add: rd_wr)
    also have "rd b k = rd a k"
      using so that jj inr[of k] unfolding same_outside_def by auto
    finally show ?thesis .
  qed
  have mi: "rd c (j + 1) = t"
    unfolding c_def using jj inrb[of "j + 1"] by simp
  have hi: "rd c k = rd a (k - 1) \<and> t <s rd a (k - 1)" if "j + 1 < k" "k \<le> i" for k
  proof -
    have "rd c k = rd b k"
      unfolding c_def using that jj inrb[of k] inrb[of "j + 1"] by (simp add: rd_wr)
    then show ?thesis using sh that by simp
  qed
  have le_t: "rd a k \<le>s t" if "l \<le> k" "k \<le> j" for k
  proof -
    have "rd a k \<le>s rd a j" using asc that jj unfolding ascending_def by blast
    moreover have "rd a j \<le>s t" using st that by (simp add: signed.not_less)
    ultimately show ?thesis by (rule signed.order_trans)
  qed
  have ascD: "rd a p \<le>s rd a q" if "l \<le> p" "p \<le> q" "q \<le> i - 1" for p q
    using asc that unfolding ascending_def by blast
  have "rd c p \<le>s rd c q" if "l \<le> p" "p \<le> q" "q \<le> i" for p q
  proof -
    note rng = that
    consider "q \<le> j" | "p \<le> j" "q = j + 1" | "p \<le> j" "j + 1 < q"
      | "p = j + 1" "q = j + 1" | "p = j + 1" "j + 1 < q" | "j + 1 < p"
      using rng by linarith
    then show ?thesis
    proof cases
      case 1
      then have "rd a p \<le>s rd a q" using rng jj by (intro ascD) auto
      then show ?thesis using lo[of p] lo[of q] rng 1 by simp
    next
      case 2
      then show ?thesis using lo[of p] mi le_t[of p] rng by simp
    next
      case 3
      then have "rd a p \<le>s rd a (q - 1)" using rng jj by (intro ascD) auto
      then show ?thesis using lo[of p] hi[of q] 3 rng by simp
    next
      case 4
      then show ?thesis by simp
    next
      case 5
      then show ?thesis using mi hi[of q] rng by (simp add: signed.less_imp_le)
    next
      case 6
      then have "rd a (p - 1) \<le>s rd a (q - 1)" using rng jj by (intro ascD) auto
      then show ?thesis using hi[of p] hi[of q] 6 rng by simp
    qed
  qed
  then show ?thesis unfolding ascending_def c_def by simp
qed

lemma ascending_same:
  "ascending a low high \<Longrightarrow> \<forall>i. low \<le> i \<and> i \<le> high \<longrightarrow> rd b i = rd a i \<Longrightarrow> ascending b low high"
  by (simp add: ascending_def)

lemma iSort_guarded_post:
  fixes a :: "'a::len word list"
  assumes "inb a l" "inb a r" "l < i" "i \<le> r + 1" "ascending a l (i - 1)"
  shows "\<exists>b m ok. iSort_guarded bail a l r i moves = Inr (b, m, ok) \<and>
     mset b = mset a \<and> same_outside a b l r \<and>
     (ok \<longrightarrow> ascending b l r) \<and> (\<not> ok \<longrightarrow> bail \<and> AscendingThreshold < m) \<and> (\<not> bail \<longrightarrow> ok)"
  using assms
proof (induction "nat (r + 1 - i)" arbitrary: a i moves rule: less_induct)
  case less
  show ?case
  proof (cases "i \<le> r")
    case False
    then have "iSort_guarded bail a l r i moves = Inr (a, moves, True)"
      by (subst iSort_guarded.simps) simp
    moreover have "ascending a l r"
      using less.prems False by (auto simp: ascending_def)
    ultimately show ?thesis by auto
  next
    case True
    have ii: "inb a i" using True less.prems by (auto simp: inb_def)
    define t where "t = rd a i"
    have "\<exists>b j'. ins_guarded a l t (i - 1) = Inr (b, j') \<and> l - 1 \<le> j' \<and> j' \<le> i - 1 \<and>
       same_outside a b (j' + 2) (i - 1 + 1) \<and>
       (\<forall>k. j' + 1 < k \<and> k \<le> i - 1 + 1 \<longrightarrow> rd b k = rd a (k - 1) \<and> t <s rd a (k - 1)) \<and>
       (l \<le> j' \<longrightarrow> \<not> t <s rd a j') \<and>
       (\<forall>v. mset (wr b (j' + 1) v) = mset (wr a (i - 1 + 1) v))"
      by (rule ins_guarded_post) (use less.prems ii in auto)
    then obtain a1 j where
      ins: "ins_guarded a l t (i - 1) = Inr (a1, j)" and
      jj: "l - 1 \<le> j" "j \<le> i - 1" and
      so: "same_outside a a1 (j + 2) i" and
      sh: "\<forall>k. j + 1 < k \<and> k \<le> i \<longrightarrow> rd a1 k = rd a (k - 1) \<and> t <s rd a (k - 1)" and
      st: "l \<le> j \<longrightarrow> \<not> t <s rd a j" and
      ms: "\<forall>v. mset (wr a1 (j + 1) v) = mset (wr a i v)"
      by auto
    define a2 where "a2 = wr a1 (j + 1) t"
    have len1: "length a1 = length a" using so by (simp add: same_outside_def)
    have ij1: "inb a1 (j + 1)" using jj less.prems True len1 by (auto simp: inb_def)
    have ms2: "mset a2 = mset a" using ms by (simp add: a2_def t_def)
    have so2: "same_outside a a2 l r"
    proof (rule same_outside_trans)
      show "same_outside a a1 l r" by (rule same_outside_mono[OF so]) (use jj True in auto)
      show "same_outside a1 a2 l r"
        unfolding a2_def by (rule same_outside_wr) (use jj True less.prems in \<open>auto simp: inb_def\<close>)
    qed
    have asc2: "ascending a2 l i"
      unfolding a2_def
      by (rule insert_ascending[OF less.prems(5) less.prems(1) ii _ jj so sh st])
         (use less.prems in auto)
    have ib2: "inb a2 l" "inb a2 r" using less.prems len1 by (auto simp: a2_def inb_def)
    have unf: "iSort_guarded bail a l r i moves =
       (if bail then
          (if AscendingThreshold < moves + ((i - 1) - j) then Inr (a2, moves + ((i - 1) - j), False)
           else iSort_guarded bail a2 l r (i + 1) (moves + ((i - 1) - j)))
        else iSort_guarded bail a2 l r (i + 1) moves)"
      using True ii ins ij1
      by (subst iSort_guarded.simps) (simp add: Let_def t_def[symmetric] a2_def)
    have rec: "\<exists>b m ok. iSort_guarded bail a2 l r (i + 1) mv = Inr (b, m, ok) \<and>
       mset b = mset a2 \<and> same_outside a2 b l r \<and>
       (ok \<longrightarrow> ascending b l r) \<and> (\<not> ok \<longrightarrow> bail \<and> AscendingThreshold < m) \<and> (\<not> bail \<longrightarrow> ok)" for mv
      by (rule less.hyps) (use True less.prems ib2 asc2 in auto)
    show ?thesis
    proof (cases "bail \<and> AscendingThreshold < moves + ((i - 1) - j)")
      case True
      then show ?thesis using unf ms2 so2 by auto
    next
      case False
      then obtain mv where "iSort_guarded bail a l r i moves = iSort_guarded bail a2 l r (i + 1) mv"
        using unf by (cases bail) auto
      then show ?thesis
        using rec[of mv] ms2 so2 by (auto intro: same_outside_trans)
    qed
  qed
qed

section \<open>Insertion sort, in pairs\<close>

lemma skip_ascending_post:
  fixes a :: "'a::len word list"
  assumes "inb a l" "inb a r" "low \<le> l" "ascending a low l"
  shows "(skip_ascending a l r = Inr None \<and> ascending a low r) \<or>
    (\<exists>l1. skip_ascending a l r = Inr (Some l1) \<and> l < l1 \<and> l1 \<le> r \<and> ascending a low (l1 - 1))"
  using assms
proof (induction "nat (r - l)" arbitrary: l rule: less_induct)
  case less
  show ?case
  proof (cases "r \<le> l")
    case True
    then have "skip_ascending a l r = Inr None" by (subst skip_ascending.simps) simp
    moreover have "ascending a low r" using less.prems True by (auto simp: ascending_def)
    ultimately show ?thesis by simp
  next
    case False
    have ib: "inb a (l + 1)" using False less.prems by (auto simp: inb_def)
    show ?thesis
    proof (cases "rd a l \<le>s rd a (l + 1)")
      case True
      have step: "skip_ascending a l r = skip_ascending a (l + 1) r"
        using False ib less.prems True by (subst skip_ascending.simps) (simp add: Let_def)
      have asc: "ascending a low (l + 1)"
        unfolding ascending_def
      proof (intro allI impI)
        fix i j assume ij: "low \<le> i \<and> i \<le> j \<and> j \<le> l + 1"
        consider "j \<le> l" | "i \<le> l" "j = l + 1" | "i = l + 1" "j = l + 1" using ij by linarith
        then show "rd a i \<le>s rd a j"
        proof cases
          case 1
          then show ?thesis using less.prems ij unfolding ascending_def by blast
        next
          case 2
          then have "rd a i \<le>s rd a l" using less.prems ij unfolding ascending_def by blast
          then show ?thesis using True 2 by (auto intro: signed.order_trans)
        next
          case 3
          then show ?thesis by simp
        qed
      qed
      have "nat (r - (l + 1)) < nat (r - l)" using False by simp
      from less.hyps[OF this ib less.prems(2) _ asc] less.prems
      show ?thesis unfolding step by auto
    next
      case ndesc: False
      then have "skip_ascending a l r = Inr (Some (l + 1))"
        using False ib less.prems by (subst skip_ascending.simps) (simp add: Let_def)
      then show ?thesis using False less.prems by simp
    qed
  qed
qed

lemma shift_by_step:
  "inb a (i - 1) \<Longrightarrow> e <s rd a (i - 1) \<Longrightarrow> inb a (i - 1 + d) \<Longrightarrow>
    shift_by d a e i = shift_by d (wr a (i - 1 + d) (rd a (i - 1))) e (i - 1)"
  by (subst shift_by.simps) (simp add: Let_def)

lemma shift_by_stop:
  "inb a (i - 1) \<Longrightarrow> \<not> e <s rd a (i - 1) \<Longrightarrow> shift_by d a e i = Inr (a, i - 1)"
  by (subst shift_by.simps) (simp add: Let_def)

lemma shift_by_post:
  fixes a :: "'a::len word list"
  assumes "1 \<le> d" "inb a s" "s < i" "\<not> e <s rd a s" "inb a (i - 1 + d)"
  shows "\<exists>b i'. shift_by d a e i = Inr (b, i') \<and> s \<le> i' \<and> i' < i \<and> \<not> e <s rd a i' \<and>
      (\<forall>k. i' < k \<and> k < i \<longrightarrow> e <s rd a k \<and> rd b (k + d) = rd a k) \<and>
      same_outside a b (i' + 1 + d) (i - 1 + d)"
  using assms
proof (induction "nat (i - s)" arbitrary: a i rule: less_induct)
  case less
  have inr: "inb a k" if "s \<le> k" "k \<le> i - 1 + d" for k
    using that less.prems by (auto simp: inb_def)
  have i1: "inb a (i - 1)" using less.prems by (intro inr) auto
  show ?case
  proof (cases "e <s rd a (i - 1)")
    case False
    then have "shift_by d a e i = Inr (a, i - 1)" using i1 by (intro shift_by_stop)
    then show ?thesis using False less.prems by auto
  next
    case True
    define a1 where "a1 = wr a (i - 1 + d) (rd a (i - 1))"
    have step: "shift_by d a e i = shift_by d a1 e (i - 1)"
      unfolding a1_def using i1 True less.prems by (intro shift_by_step)
    have ne: "s \<noteq> i - 1" using True less.prems by auto
    then have s1: "s < i - 1" using less.prems by simp
    have r1: "rd a1 k = rd a k" if "s \<le> k" "k < i - 1 + d" for k
      unfolding a1_def using that inr[of k] inr[of "i - 1 + d"] less.prems by (simp add: rd_wr)
    have "nat (i - 1 - s) < nat (i - s)" using less.prems by simp
    from less.hyps[OF this less.prems(1), of a1] obtain b i' where
      run: "shift_by d a1 e (i - 1) = Inr (b, i')" and
      ii: "s \<le> i'" "i' < i - 1" and
      st: "\<not> e <s rd a1 i'" and
      sh: "\<forall>k. i' < k \<and> k < i - 1 \<longrightarrow> e <s rd a1 k \<and> rd b (k + d) = rd a1 k" and
      so: "same_outside a1 b (i' + 1 + d) (i - 1 - 1 + d)"
      using less.prems s1 r1[of s] inr[of "i - 1 - 1 + d"] by (auto simp: a1_def)
    have st': "\<not> e <s rd a i'" using st r1[of i'] ii less.prems by simp
    have sh': "e <s rd a k \<and> rd b (k + d) = rd a k" if "i' < k" "k < i" for k
    proof (cases "k = i - 1")
      case True
      have "rd b (i - 1 + d) = rd a1 (i - 1 + d)"
        using so less.prems unfolding same_outside_def by (simp add: a1_def)
      also have "\<dots> = rd a (i - 1)" using less.prems by (simp add: a1_def)
      finally show ?thesis using True \<open>e <s rd a (i - 1)\<close> by simp
    next
      case False
      then have "k < i - 1" using that by simp
      then show ?thesis using sh that ii r1[of k] less.prems by auto
    qed
    have so': "same_outside a b (i' + 1 + d) (i - 1 + d)"
    proof (rule same_outside_trans)
      show "same_outside a a1 (i' + 1 + d) (i - 1 + d)"
        unfolding a1_def by (rule same_outside_wr) (use ii less.prems in \<open>auto simp: inb_def\<close>)
      show "same_outside a1 b (i' + 1 + d) (i - 1 + d)"
        by (rule same_outside_mono[OF so]) auto
    qed
    show ?thesis using step run ii st' sh' so' by auto
  qed
qed

text \<open>The holes of the two shifts: one place for \<open>d = 1\<close>, two for \<open>d = 2\<close>.\<close>

lemma shift_by_1_mset:
  assumes "shift_by 1 a e i = Inr (b, i')" "inb a i"
  shows "mset (wr b (i' + 1) v) = mset (wr a i v)"
  using assms
proof (induction "1 :: int" a e i rule: shift_by.induct)
  case (1 a e i)
  show ?case
  proof (cases "inb a (i - 1) \<and> e <s rd a (i - 1)")
    case False
    then have "b = a" "i' = i - 1"
      using "1.prems" by (subst (asm) shift_by.simps; auto simp: Let_def split: if_splits)+
    then show ?thesis by simp
  next
    case True
    define a1 where "a1 = wr a (i - 1 + 1) (rd a (i - 1))"
    have "shift_by 1 a e i = shift_by 1 a1 e (i - 1)"
      unfolding a1_def using True "1.prems" by (intro shift_by_step) auto
    then have run: "shift_by 1 a1 e (i - 1) = Inr (b, i')" using "1.prems" by simp
    have "mset (wr b (i' + 1) v) = mset (wr a1 (i - 1) v)"
      using "1.hyps"[OF refl _ _ _ run[unfolded a1_def]] True "1.prems"
      by (simp add: a1_def)
    also have "\<dots> = mset (wr a i v)"
      unfolding a1_def using mset_hole[of a i "i - 1" v] True "1.prems" by simp
    finally show ?thesis .
  qed
qed

lemma mset_rot3:
  assumes "inb a i" "inb a (i + 1)" "inb a (i + 2)"
  shows "mset (wr (wr (wr a (i + 2) (rd a i)) i v) (i + 1) w) = mset (wr (wr a (i + 1) v) (i + 2) w)"
proof -
  define A where "A = wr a (i + 1) v"
  define B where "B = wr (wr A (i + 2) (rd A i)) i w"
  have rA: "rd A i = rd a i" unfolding A_def using assms by (simp add: rd_wr)
  have "mset B = mset (wr A (i + 2) w)"
    unfolding B_def by (rule mset_hole) (use assms in \<open>simp_all add: A_def\<close>)
  moreover have "mset (exchange B i (i + 1)) = mset B"
    by (rule mset_exchange) (use assms in \<open>simp_all add: A_def B_def\<close>)
  moreover have "exchange B i (i + 1) = wr (wr (wr a (i + 2) (rd a i)) i v) (i + 1) w"
  proof -
    have n: "nat (i + 1) = Suc (nat i)" "nat (i + 2) = Suc (Suc (nat i))" "Suc (Suc (nat i)) < length a"
      using assms by (auto simp: inb_def)
    show ?thesis
      unfolding exchange_def B_def A_def rA
      unfolding wr_def rd_def n
      using n(3) by (intro nth_equalityI) (auto simp: nth_list_update)
  qed
  ultimately show ?thesis by (simp add: A_def)
qed

lemma shift_by_2_mset:
  assumes "shift_by 2 a e i = Inr (b, i')" "inb a i" "inb a (i + 1)"
  shows "mset (wr (wr b (i' + 1) v) (i' + 2) w) = mset (wr (wr a i v) (i + 1) w)"
  using assms
proof (induction "2 :: int" a e i rule: shift_by.induct)
  case (1 a e i)
  show ?case
  proof (cases "inb a (i - 1) \<and> e <s rd a (i - 1)")
    case False
    then have "b = a" "i' = i - 1"
      using "1.prems" by (subst (asm) shift_by.simps; auto simp: Let_def split: if_splits)+
    then show ?thesis by (simp add: add.commute)
  next
    case True
    have e1: "i - 1 + 2 = i + 1" and e0: "i - 1 + 1 = i" by simp_all
    have ib: "inb a (i - 1)" "inb a (i - 1 + 1)" "inb a (i - 1 + 2)"
      using True "1.prems" unfolding e1 e0 by simp_all
    define a1 where "a1 = wr a (i - 1 + 2) (rd a (i - 1))"
    have "shift_by 2 a e i = shift_by 2 a1 e (i - 1)"
      unfolding a1_def using True ib by (intro shift_by_step) auto
    then have run: "shift_by 2 a1 e (i - 1) = Inr (b, i')" using "1.prems" by simp
    have "mset (wr (wr b (i' + 1) v) (i' + 2) w) = mset (wr (wr a1 (i - 1) v) (i - 1 + 1) w)"
      by (rule "1.hyps"[OF refl _ _ _ run[unfolded a1_def], folded a1_def])
         (use True ib in \<open>simp_all add: a1_def\<close>)
    also have "\<dots> = mset (wr (wr a (i - 1 + 1) v) (i - 1 + 2) w)"
      unfolding a1_def by (rule mset_rot3[OF ib])
    finally show ?thesis unfolding e1 e0 .
  qed
qed

lemma wr_commute: "0 \<le> i \<Longrightarrow> 0 \<le> j \<Longrightarrow> i \<noteq> j \<Longrightarrow> wr (wr a i v) j w = wr (wr a j w) i v"
  by (simp add: wr_def list_update_swap)

lemma ascending_join:
  fixes a :: "'a::len word list"
  assumes "ascending a low m" "ascending a (m + 1) high"
    and "\<forall>p. low \<le> p \<and> p \<le> m \<longrightarrow> rd a p \<le>s v"
    and "\<forall>q. m + 1 \<le> q \<and> q \<le> high \<longrightarrow> v \<le>s rd a q"
  shows "ascending a low high"
  unfolding ascending_def
proof (intro allI impI)
  fix i j assume ij: "low \<le> i \<and> i \<le> j \<and> j \<le> high"
  consider "j \<le> m" | "i \<le> m" "m + 1 \<le> j" | "m + 1 \<le> i" by linarith
  then show "rd a i \<le>s rd a j"
  proof cases
    case 1
    then show ?thesis using assms(1) ij unfolding ascending_def by blast
  next
    case 2
    then have "rd a i \<le>s v" "v \<le>s rd a j" using assms(3,4) ij by auto
    then show ?thesis by (rule signed.order_trans)
  next
    case 3
    then show ?thesis using assms(2) ij unfolding ascending_def by blast
  qed
qed

lemma pair_insert_post:
  fixes a :: "'a::len word list"
  assumes lb: "left_bounded a low r"
    and rng: "low \<le> i" "i + 1 \<le> r" "inb a r"
    and asc: "ascending a low (i - 1)"
    and exy: "ex = (if rd a (i + 1) <s rd a i then rd a (i + 1) else rd a i)"
             "ey = (if rd a (i + 1) <s rd a i then rd a i else rd a (i + 1))"
  shows "\<exists>a1 i1 a2 i3. shift_by 2 a ey i = Inr (a1, i1) \<and> inb a1 (i1 + 1 + 1) \<and>
      shift_by 1 (wr a1 (i1 + 1 + 1) ey) ex (i1 + 1) = Inr (a2, i3) \<and> inb a2 (i3 + 1) \<and>
      i3 \<le> i - 1 \<and> mset (wr a2 (i3 + 1) ex) = mset a \<and>
      same_outside a (wr a2 (i3 + 1) ex) low (i + 1) \<and> ascending (wr a2 (i3 + 1) ex) low (i + 1)"
proof -
  define s where "s = low - 1"
  have ibs: "inb a s" and sent: "\<And>k. low \<le> k \<Longrightarrow> k \<le> r \<Longrightarrow> rd a s \<le>s rd a k"
    using lb by (auto simp: left_bounded_def s_def)
  have inr: "inb a k" if "s \<le> k" "k \<le> r" for k
    using that ibs rng by (auto simp: inb_def)
  have s0: "0 \<le> s" "0 \<le> low - 1" using ibs by (auto simp: inb_def s_def)
  have exey: "ex \<le>s ey" by (auto simp: exy signed.less_imp_le signed.not_less)
  have sx: "rd a s \<le>s ex" and sy: "rd a s \<le>s ey"
    using sent[of i] sent[of "i + 1"] rng by (auto simp: exy)
  have ascD: "rd a p \<le>s rd a q" if "low \<le> p" "p \<le> q" "q \<le> i - 1" for p q
    using asc that unfolding ascending_def by blast
  text \<open>the first shift, by two\<close>
  have "\<exists>b i'. shift_by 2 a ey i = Inr (b, i') \<and> s \<le> i' \<and> i' < i \<and> \<not> ey <s rd a i' \<and>
      (\<forall>k. i' < k \<and> k < i \<longrightarrow> ey <s rd a k \<and> rd b (k + 2) = rd a k) \<and>
      same_outside a b (i' + 1 + 2) (i - 1 + 2)"
  proof (rule shift_by_post[of 2 a s i ey])
    have e: "i - 1 + 2 = i + 1" by simp
    show "inb a (i - 1 + 2)" unfolding e by (rule inr) (use rng in \<open>auto simp: s_def\<close>)
  qed (use ibs rng sy in \<open>auto simp: s_def signed.not_less\<close>)
  then obtain a1 i1 where
    run1: "shift_by 2 a ey i = Inr (a1, i1)" and
    i1: "s \<le> i1" "i1 < i" and
    st1: "\<not> ey <s rd a i1" and
    sh1: "\<forall>k. i1 < k \<and> k < i \<longrightarrow> ey <s rd a k \<and> rd a1 (k + 2) = rd a k" and
    so1: "same_outside a a1 (i1 + 3) (i + 1)"
    by (auto simp: add.commute)
  have ms1: "mset (wr (wr a1 (i1 + 1) v) (i1 + 2) w) = mset (wr (wr a i v) (i + 1) w)" for v w
    by (rule shift_by_2_mset[OF run1]) (use inr[of i] inr[of "i + 1"] i1 rng s_def in auto)
  have len1: "length a1 = length a" using so1 by (simp add: same_outside_def)
  have ib1: "inb a1 k = inb a k" for k using len1 by (simp add: inb_def)
  have a1_lo: "rd a1 k = rd a k" if "s \<le> k" "k \<le> i1 + 2" for k
    using so1 that inr[of k] i1 rng unfolding same_outside_def by auto
  define a1' where "a1' = wr a1 (i1 + 2) ey"
  have ib1': "inb a1' k = inb a k" for k by (simp add: a1'_def ib1)
  have i12: "inb a (i1 + 2)" using i1 rng by (intro inr) auto
  have a1'_lo: "rd a1' k = rd a k" if "s \<le> k" "k \<le> i1 + 1" for k
    unfolding a1'_def using that a1_lo[of k] inr[of k] i12 i1 rng
    by (simp add: rd_wr ib1)
  have a1'_ey: "rd a1' (i1 + 2) = ey" by (simp add: a1'_def ib1 i12)
  have a1'_hi: "rd a1' k = rd a (k - 2) \<and> ey <s rd a (k - 2)" if "i1 + 3 \<le> k" "k \<le> i + 1" for k
  proof -
    have "rd a1' k = rd a1 k"
      unfolding a1'_def using that i12 inr[of k] i1 rng by (simp add: rd_wr ib1)
    moreover have "ey <s rd a (k - 2) \<and> rd a1 (k - 2 + 2) = rd a (k - 2)"
      using that by (intro sh1[rule_format]) auto
    ultimately show ?thesis by simp
  qed
  have asc1': "ascending a1' low i1"
    unfolding ascending_def
  proof (intro allI impI)
    fix p q assume "low \<le> p \<and> p \<le> q \<and> q \<le> i1"
    then show "rd a1' p \<le>s rd a1' q"
      using a1'_lo[of p] a1'_lo[of q] ascD[of p q] i1 by (auto simp: s_def)
  qed
  text \<open>the second shift, by one\<close>
  have "\<exists>b i'. shift_by 1 a1' ex (i1 + 1) = Inr (b, i') \<and> s \<le> i' \<and> i' < i1 + 1 \<and> \<not> ex <s rd a1' i' \<and>
      (\<forall>k. i' < k \<and> k < i1 + 1 \<longrightarrow> ex <s rd a1' k \<and> rd b (k + 1) = rd a1' k) \<and>
      same_outside a1' b (i' + 1 + 1) (i1 + 1 - 1 + 1)"
  proof (rule shift_by_post[of 1 a1' s "i1 + 1" ex])
    have e: "i1 + 1 - 1 + 1 = i1 + 1" by simp
    show "inb a1' (i1 + 1 - 1 + 1)"
      unfolding e ib1' by (rule inr) (use i1 rng in auto)
    show "\<not> ex <s rd a1' s" using sx a1'_lo[of s] i1 by (simp add: signed.not_less)
  qed (use ibs i1 in \<open>auto simp: ib1'\<close>)
  then obtain a2 i3 where
    run2: "shift_by 1 a1' ex (i1 + 1) = Inr (a2, i3)" and
    i3: "s \<le> i3" "i3 \<le> i1" and
    st2: "\<not> ex <s rd a1' i3" and
    sh2: "\<forall>k. i3 < k \<and> k \<le> i1 \<longrightarrow> ex <s rd a1' k \<and> rd a2 (k + 1) = rd a1' k" and
    so2: "same_outside a1' a2 (i3 + 2) (i1 + 1)"
    by (auto simp: add.commute)
  have ms2: "mset (wr a2 (i3 + 1) v) = mset (wr a1' (i1 + 1) v)" for v
    by (rule shift_by_1_mset[OF run2]) (use inr[of "i1 + 1"] i1 rng in \<open>auto simp: ib1'\<close>)
  have len2: "length a2 = length a" using so2 by (simp add: same_outside_def a1'_def len1)
  have ib2: "inb a2 k = inb a k" for k using len2 by (simp add: inb_def)
  define a3 where "a3 = wr a2 (i3 + 1) ex"
  have i31: "inb a (i3 + 1)" using i3 i1 rng by (intro inr) auto
  text \<open>the multiset\<close>
  have msa: "mset a3 = mset a"
  proof -
    have "mset a3 = mset (wr a1' (i1 + 1) ex)" using ms2 by (simp add: a3_def)
    also have "wr a1' (i1 + 1) ex = wr (wr a1 (i1 + 1) ex) (i1 + 2) ey"
      unfolding a1'_def using i1 rng s0 by (intro wr_commute) (auto simp: s_def)
    also have "mset \<dots> = mset (wr (wr a i ex) (i + 1) ey)" by (rule ms1)
    also have "\<dots> = mset a"
    proof (cases "rd a (i + 1) <s rd a i")
      case True
      then have "wr (wr a i ex) (i + 1) ey = exchange a i (i + 1)"
        by (simp add: exy exchange_def)
      then show ?thesis using mset_exchange[of a i "i + 1"] inr[of i] inr[of "i + 1"] rng
        by (simp add: s_def)
    next
      case False
      then show ?thesis by (simp add: exy)
    qed
    finally show ?thesis .
  qed
  text \<open>the frame\<close>
  have soa: "same_outside a a3 low (i + 1)"
  proof -
    have 1: "same_outside a a1 low (i + 1)"
      by (rule same_outside_mono[OF so1]) (use i1 in \<open>auto simp: s_def\<close>)
    have 2: "same_outside a1 a1' low (i + 1)"
      unfolding a1'_def by (rule same_outside_wr) (use i1 s0 in \<open>auto simp: s_def\<close>)
    have 3: "same_outside a1' a2 low (i + 1)"
      by (rule same_outside_mono[OF so2]) (use i1 i3 in \<open>auto simp: s_def\<close>)
    have 4: "same_outside a2 a3 low (i + 1)"
      unfolding a3_def by (rule same_outside_wr) (use i1 i3 s0 in \<open>auto simp: s_def\<close>)
    show ?thesis
      by (rule same_outside_trans[OF 1 same_outside_trans[OF 2 same_outside_trans[OF 3 4]]])
  qed
  text \<open>the order\<close>
  have asc_lo: "ascending a3 low (i1 + 1)"
    unfolding a3_def
  proof (rule insert_ascending[where a = a1' and t = ex])
    show "ascending a1' low (i1 + 1 - 1)" using asc1' by simp
    show "inb a1' low" using rng inr[of low] by (simp add: ib1' s_def)
    show "inb a1' (i1 + 1)" using inr[of "i1 + 1"] i1 rng by (simp add: ib1')
    show "low \<le> i1 + 1" using i1 by (simp add: s_def)
    show "low - 1 \<le> i3" using i3 by (simp add: s_def)
    show "i3 \<le> i1 + 1 - 1" using i3 by simp
    show "same_outside a1' a2 (i3 + 2) (i1 + 1)" by (rule so2)
    show "\<forall>k. i3 + 1 < k \<and> k \<le> i1 + 1 \<longrightarrow> rd a2 k = rd a1' (k - 1) \<and> ex <s rd a1' (k - 1)"
    proof (intro allI impI)
      fix k assume k: "i3 + 1 < k \<and> k \<le> i1 + 1"
      then have "ex <s rd a1' (k - 1) \<and> rd a2 (k - 1 + 1) = rd a1' (k - 1)"
        using sh2 by (intro sh2[rule_format]) auto
      then show "rd a2 k = rd a1' (k - 1) \<and> ex <s rd a1' (k - 1)" by simp
    qed
    show "low \<le> i3 \<longrightarrow> \<not> ex <s rd a1' i3" using st2 by simp
  qed
  have a3_hi: "rd a3 k = rd a1' k" if "i1 + 2 \<le> k" "k \<le> i + 1" for k
  proof -
    have ik: "inb a k" using that i1 rng by (intro inr) auto
    have "rd a3 k = rd a2 k"
      unfolding a3_def using that i3 ik i31 by (simp add: rd_wr ib2)
    also have "\<dots> = rd a1' k"
      using so2 that ik unfolding same_outside_def by (auto simp: ib1')
    finally show ?thesis .
  qed
  have asc_hi: "ascending a3 (i1 + 1 + 1) (i + 1)"
    unfolding ascending_def
  proof (intro allI impI)
    fix p q assume pq: "i1 + 1 + 1 \<le> p \<and> p \<le> q \<and> q \<le> i + 1"
    consider "p = q" | "p = i1 + 2" "i1 + 3 \<le> q" | "i1 + 3 \<le> p" "p < q" using pq by linarith
    then show "rd a3 p \<le>s rd a3 q"
    proof cases
      case 1
      then show ?thesis by simp
    next
      case 2
      then show ?thesis
        using a3_hi[of p] a3_hi[of q] a1'_ey a1'_hi[of q] pq by (simp add: signed.less_imp_le)
    next
      case 3
      then have "rd a (p - 2) \<le>s rd a (q - 2)" using pq i1 by (intro ascD) (auto simp: s_def)
      then show ?thesis using a3_hi[of p] a3_hi[of q] a1'_hi[of p] a1'_hi[of q] pq 3 by simp
    qed
  qed
  have top: "rd a3 (i1 + 1) \<le>s ey"
  proof (cases "i3 = i1")
    case True
    then show ?thesis using exey i31 by (simp add: a3_def ib2)
  next
    case False
    then have lt: "i3 < i1" using i3 by simp
    have "rd a3 (i1 + 1) = rd a2 (i1 + 1)"
      unfolding a3_def using lt i31 inr[of "i1 + 1"] i1 i3 rng by (simp add: rd_wr ib2)
    also have "\<dots> = rd a1' i1" using sh2 lt by auto
    also have "\<dots> = rd a i1" using a1'_lo[of i1] i1 by simp
    finally show ?thesis using st1 by (simp add: signed.not_less)
  qed
  have below: "\<forall>p. low \<le> p \<and> p \<le> i1 + 1 \<longrightarrow> rd a3 p \<le>s ey"
  proof (intro allI impI)
    fix p assume "low \<le> p \<and> p \<le> i1 + 1"
    then have "rd a3 p \<le>s rd a3 (i1 + 1)" using asc_lo unfolding ascending_def by blast
    then show "rd a3 p \<le>s ey" using top by (rule signed.order_trans)
  qed
  have above: "\<forall>q. i1 + 1 + 1 \<le> q \<and> q \<le> i + 1 \<longrightarrow> ey \<le>s rd a3 q"
  proof (intro allI impI)
    fix q assume q: "i1 + 1 + 1 \<le> q \<and> q \<le> i + 1"
    show "ey \<le>s rd a3 q"
    proof (cases "q = i1 + 2")
      case True
      then show ?thesis using a3_hi[of q] a1'_ey q by simp
    next
      case False
      then show ?thesis using a3_hi[of q] a1'_hi[of q] q by (simp add: signed.less_imp_le)
    qed
  qed
  have asca: "ascending a3 low (i + 1)"
    by (rule ascending_join[OF asc_lo asc_hi below above])
  have e2: "z + 1 + 1 = z + 2" for z :: int by simp
  have f2: "inb a1 (i1 + 2)" using i12 by (simp only: ib1)
  have f3: "shift_by 1 (wr a1 (i1 + 2) ey) ex (i1 + 1) = Inr (a2, i3)"
    using run2 by (simp only: a1'_def)
  have f4: "inb a2 (i3 + 1)" using i31 by (simp only: ib2)
  have f5: "i3 \<le> i - 1" using i3 i1 by linarith
  show ?thesis
    unfolding e2
    using run1 f2 f3 f4 f5 msa[unfolded a3_def] soa[unfolded a3_def] asca[unfolded a3_def]
    by blast
qed

lemma left_bounded_perm:
  fixes a :: "'a::len word list"
  assumes lb: "left_bounded a low high" and "inb a high"
    and "mset b = mset a" "same_outside a b low high"
  shows "left_bounded b low high"
proof -
  have s: "inb a (low - 1)" and le: "\<And>k. low \<le> k \<Longrightarrow> k \<le> high \<Longrightarrow> rd a (low - 1) \<le>s rd a k"
    using lb by (auto simp: left_bounded_def)
  have vals: "{rd b i | i. low \<le> i \<and> i \<le> high} = {rd a i | i. low \<le> i \<and> i \<le> high}"
    by (rule perm_values) (use assms s in \<open>auto simp: inb_def\<close>)
  have sb: "rd b (low - 1) = rd a (low - 1)"
    using assms(4) s unfolding same_outside_def by auto
  have "rd b (low - 1) \<le>s rd b k" if "low \<le> k" "k \<le> high" for k
  proof -
    have "rd b k \<in> {rd a i | i. low \<le> i \<and> i \<le> high}" using vals that by blast
    then show ?thesis using le sb by auto
  qed
  moreover have "inb b (low - 1)" using s same_outside_inb[OF assms(4)] by simp
  ultimately show ?thesis by (simp add: left_bounded_def)
qed

lemma iSort_pairs_post:
  fixes a :: "'a::len word list"
  assumes "left_bounded a low r" "low \<le> i" "i \<le> r + 1" "inb a r" "ascending a low (i - 1)"
  shows "\<exists>b m ok. iSort_pairs bail a r i moves = Inr (b, m, ok) \<and>
     mset b = mset a \<and> same_outside a b low r \<and>
     (ok \<longrightarrow> ascending b low (r - 1)) \<and> (\<not> ok \<longrightarrow> bail \<and> AscendingThreshold < m) \<and>
     (\<not> bail \<longrightarrow> ok)"
  using assms
proof (induction "nat (r + 1 - i)" arbitrary: a i moves rule: less_induct)
  case less
  show ?case
  proof (cases "i + 1 \<le> r")
    case False
    then have "iSort_pairs bail a r i moves = Inr (a, moves, True)"
      by (subst iSort_pairs.simps) (simp add: Let_def)
    moreover have "ascending a low (r - 1)"
      using less.prems False by (auto simp: ascending_def)
    ultimately show ?thesis by auto
  next
    case True
    define ex where "ex = (if rd a (i + 1) <s rd a i then rd a (i + 1) else rd a i)"
    define ey where "ey = (if rd a (i + 1) <s rd a i then rd a i else rd a (i + 1))"
    define moves1 where "moves1 = (if rd a (i + 1) <s rd a i then moves + 1 else moves)"
    have s0: "0 \<le> low - 1" using less.prems by (auto simp: left_bounded_def inb_def)
    have ii: "inb a i" "inb a (i + 1)" using True less.prems s0 by (auto simp: inb_def)
    from pair_insert_post[OF less.prems(1,2) True less.prems(4,5) ex_def ey_def]
    obtain a1 i1 a2 i3 where
      run1: "shift_by 2 a ey i = Inr (a1, i1)" and ib1: "inb a1 (i1 + 1 + 1)" and
      run2: "shift_by 1 (wr a1 (i1 + 1 + 1) ey) ex (i1 + 1) = Inr (a2, i3)" and
      ib2: "inb a2 (i3 + 1)" and i3: "i3 \<le> i - 1" and
      ms: "mset (wr a2 (i3 + 1) ex) = mset a" and
      so: "same_outside a (wr a2 (i3 + 1) ex) low (i + 1)" and
      asc: "ascending (wr a2 (i3 + 1) ex) low (i + 1)"
      by blast
    define a3 where "a3 = wr a2 (i3 + 1) ex"
    have unf: "iSort_pairs bail a r i moves =
       (if bail then
          (if AscendingThreshold < moves1 + ((i + 1 - 2) - i3)
           then Inr (a3, moves1 + ((i + 1 - 2) - i3), False)
           else iSort_pairs bail a3 r (i + 1 + 1) (moves1 + ((i + 1 - 2) - i3)))
        else iSort_pairs bail a3 r (i + 1 + 1) moves1)"
      using True ii run1 ib1 run2 ib2
      by (subst iSort_pairs.simps)
         (simp add: Let_def ex_def[symmetric] ey_def[symmetric] moves1_def[symmetric] a3_def)
    have so3: "same_outside a a3 low r"
      unfolding a3_def by (rule same_outside_mono[OF so]) (use True in auto)
    have ms3: "mset a3 = mset a" using ms by (simp add: a3_def)
    have lb3: "left_bounded a3 low r"
      by (rule left_bounded_perm[OF less.prems(1,4) ms3 so3])
    have ir3: "inb a3 r" using less.prems same_outside_inb[OF so3] by simp
    have e3: "i + 1 + 1 - 1 = i + 1" by simp
    have asc3: "ascending a3 low (i + 1 + 1 - 1)" unfolding e3 a3_def by (rule asc)
    have rec: "\<exists>b m ok. iSort_pairs bail a3 r (i + 1 + 1) mv = Inr (b, m, ok) \<and>
       mset b = mset a3 \<and> same_outside a3 b low r \<and>
       (ok \<longrightarrow> ascending b low (r - 1)) \<and> (\<not> ok \<longrightarrow> bail \<and> AscendingThreshold < m) \<and>
       (\<not> bail \<longrightarrow> ok)" for mv
      by (rule less.hyps[OF _ lb3 _ _ ir3 asc3]) (use True less.prems in auto)
    show ?thesis
    proof (cases "bail \<and> AscendingThreshold < moves1 + ((i + 1 - 2) - i3)")
      case True
      then show ?thesis using unf ms3 so3 by auto
    next
      case False
      then obtain mv where "iSort_pairs bail a r i moves = iSort_pairs bail a3 r (i + 1 + 1) mv"
        using unf by (cases bail) auto
      then show ?thesis
        using rec[of mv] ms3 so3 by (auto intro: same_outside_trans)
    qed
  qed
qed

lemma ascending_single: "ascending a l l"
  unfolding ascending_def
proof (intro allI impI)
  fix i j assume "l \<le> i \<and> i \<le> j \<and> j \<le> l"
  then have "i = j" by linarith
  then show "rd a i \<le>s rd a j" by simp
qed

lemma iSort_moves_post:
  fixes a :: "'a::len word list"
  assumes "inb a low" "inb a high" "low \<le> high" "leftmost \<or> left_bounded a low high"
  shows "\<exists>b m ok. iSort_moves bail leftmost a low high = Inr (b, m, ok) \<and>
     mset b = mset a \<and> same_outside a b low high \<and>
     (ok \<longrightarrow> ascending b low high) \<and> (\<not> ok \<longrightarrow> bail \<and> AscendingThreshold < m) \<and>
     (\<not> bail \<longrightarrow> ok)"
proof (cases leftmost)
  case True
  have "ascending a low (low + 1 - 1)" using ascending_single[of a low] by simp
  then have "\<exists>b m ok. iSort_guarded bail a low high (low + 1) 0 = Inr (b, m, ok) \<and>
     mset b = mset a \<and> same_outside a b low high \<and>
     (ok \<longrightarrow> ascending b low high) \<and> (\<not> ok \<longrightarrow> bail \<and> AscendingThreshold < m) \<and>
     (\<not> bail \<longrightarrow> ok)"
    by (intro iSort_guarded_post) (use assms in auto)
  then show ?thesis using True by (simp add: iSort_moves_def)
next
  case False
  then have lb: "left_bounded a low high" using assms by simp
  have asc0: "ascending a low low" by (rule ascending_single)
  from skip_ascending_post[OF assms(1,2) order_refl asc0]
  consider (sorted) "skip_ascending a low high = Inr None" "ascending a low high"
    | (pairs) l where "skip_ascending a low high = Inr (Some l)" "low < l" "l \<le> high"
        "ascending a low (l - 1)"
    by blast
  then show ?thesis
  proof cases
    case sorted
    then show ?thesis using False by (auto simp: iSort_moves_def)
  next
    case pairs
    have "\<exists>b m ok. iSort_pairs bail a high l 0 = Inr (b, m, ok) \<and>
       mset b = mset a \<and> same_outside a b low high \<and>
       (ok \<longrightarrow> ascending b low (high - 1)) \<and> (\<not> ok \<longrightarrow> bail \<and> AscendingThreshold < m) \<and>
       (\<not> bail \<longrightarrow> ok)"
      by (rule iSort_pairs_post[OF lb _ _ assms(2) pairs(4)]) (use pairs in auto)
    then obtain a1 m ok where
      run: "iSort_pairs bail a high l 0 = Inr (a1, m, ok)" and
      ms1: "mset a1 = mset a" and so1: "same_outside a a1 low high" and
      asc1: "ok \<longrightarrow> ascending a1 low (high - 1)" and
      bad: "\<not> ok \<longrightarrow> bail \<and> AscendingThreshold < m" and nb: "\<not> bail \<longrightarrow> ok"
      by blast
    show ?thesis
    proof (cases ok)
      case nok: False
      then have "iSort_moves bail leftmost a low high = Inr (a1, m, False)"
        using False pairs run by (simp add: iSort_moves_def)
      then show ?thesis using ms1 so1 bad nb nok by auto
    next
      case ok: True
      have lb1: "left_bounded a1 low high"
        by (rule left_bounded_perm[OF lb assms(2) ms1 so1])
      have ib1: "inb a1 k = inb a k" for k using same_outside_inb[OF so1] by simp
      define ez where "ez = rd a1 high"
      have s1: "inb a1 (low - 1)" and sle: "rd a1 (low - 1) \<le>s ez"
        using lb1 assms by (auto simp: left_bounded_def ez_def)
      have "\<exists>b i'. shift_by 1 a1 ez high = Inr (b, i') \<and> low - 1 \<le> i' \<and> i' < high \<and>
          \<not> ez <s rd a1 i' \<and>
          (\<forall>k. i' < k \<and> k < high \<longrightarrow> ez <s rd a1 k \<and> rd b (k + 1) = rd a1 k) \<and>
          same_outside a1 b (i' + 1 + 1) (high - 1 + 1)"
      proof (rule shift_by_post[of 1 a1 "low - 1" high ez])
        have e: "high - 1 + 1 = high" by simp
        show "inb a1 (high - 1 + 1)" unfolding e ib1 by (rule assms)
        show "\<not> ez <s rd a1 (low - 1)" using sle by (simp add: signed.not_less)
      qed (use s1 assms in auto)
      then obtain a2 r where
        run2: "shift_by 1 a1 ez high = Inr (a2, r)" and
        r: "low - 1 \<le> r" "r < high" and
        st: "\<not> ez <s rd a1 r" and
        sh: "\<forall>k. r < k \<and> k < high \<longrightarrow> ez <s rd a1 k \<and> rd a2 (k + 1) = rd a1 k" and
        so2: "same_outside a1 a2 (r + 2) high"
        by (auto simp: add.commute)
      define b where "b = wr a2 (r + 1) ez"
      have ib2: "inb a2 k = inb a k" for k using same_outside_inb[OF so2] ib1 by simp
      have ir1: "inb a (r + 1)" using r assms by (auto simp: inb_def)
      have res: "iSort_moves bail leftmost a low high = Inr (b, m, True)"
        using False pairs run ok run2 ir1 assms
        by (simp add: iSort_moves_def Let_def ib1 ib2 ez_def[symmetric] b_def)
      have msb: "mset b = mset a"
      proof -
        have "mset b = mset (wr a1 high ez)"
          unfolding b_def by (rule shift_by_1_mset[OF run2]) (use assms in \<open>simp add: ib1\<close>)
        then show ?thesis using ms1 by (simp add: ez_def)
      qed
      have sob: "same_outside a b low high"
      proof -
        have 2: "same_outside a1 a2 low high"
          by (rule same_outside_mono[OF so2]) (use r in auto)
        have 3: "same_outside a2 b low high"
          unfolding b_def by (rule same_outside_wr) (use r ir1 in \<open>auto simp: inb_def\<close>)
        show ?thesis by (rule same_outside_trans[OF so1 same_outside_trans[OF 2 3]])
      qed
      have ascb: "ascending b low high"
        unfolding b_def
      proof (rule insert_ascending[where a = a1 and t = ez])
        show "ascending a1 low (high - 1)" using asc1 ok by simp
        show "inb a1 low" "inb a1 high" using assms by (simp_all add: ib1)
        show "low \<le> high" by (rule assms)
        show "low - 1 \<le> r" "r \<le> high - 1" using r by auto
        show "same_outside a1 a2 (r + 2) high" by (rule so2)
        show "\<forall>k. r + 1 < k \<and> k \<le> high \<longrightarrow> rd a2 k = rd a1 (k - 1) \<and> ez <s rd a1 (k - 1)"
        proof (intro allI impI)
          fix k assume k: "r + 1 < k \<and> k \<le> high"
          then have "ez <s rd a1 (k - 1) \<and> rd a2 (k - 1 + 1) = rd a1 (k - 1)"
            by (intro sh[rule_format]) auto
          then show "rd a2 k = rd a1 (k - 1) \<and> ez <s rd a1 (k - 1)" by simp
        qed
        show "low \<le> r \<longrightarrow> \<not> ez <s rd a1 r" using st by simp
      qed
      show ?thesis using res msb sob ascb by auto
    qed
  qed
qed

section \<open>The candidate step\<close>

lemma permutedI:
  "mset b = mset a \<Longrightarrow> same_outside a b low high \<Longrightarrow> 0 \<le> low \<Longrightarrow> permuted a b low high"
  unfolding permuted_def by (intro conjI slice_perm)

lemma sort_candidates_same_outside:
  assumes ib: "inb a cl" "inb a sl" "inb a mid" "inb a sr" "inb a cr"
    and rng: "low \<le> cl" "cl \<le> high" "low \<le> sl" "sl \<le> high" "low \<le> mid" "mid \<le> high"
      "low \<le> sr" "sr \<le> high" "low \<le> cr" "cr \<le> high"
  shows "same_outside a (sort_candidates a cl sl mid sr cr) low high"
  unfolding same_outside_def
proof (intro conjI allI impI)
  show "length (sort_candidates a cl sl mid sr cr) = length a" by simp
  fix i assume "inb a i \<and> (i < low \<or> high < i)"
  then show "rd (sort_candidates a cl sl mid sr cr) i = rd a i"
    using rng by (intro rd_sort_candidates_other[OF ib]) auto
qed

lemma swap_rotate_perm:
  assumes "inb a low" "inb a high" "low \<le> mid" "mid \<le> high + 1"
  shows "\<exists>b. swap_rotate a low high mid = Inr b \<and> mset b = mset a \<and> same_outside a b low high"
proof -
  have "mset (swap_pairs a low high (nat (mid - low))) = mset a \<and>
        same_outside a (swap_pairs a low high (nat (mid - low))) low high"
    by (rule swap_pairs_perm) (use assms in \<open>auto simp: inb_def\<close>)
  then show ?thesis using swap_rotate_refines[OF assms] by simp
qed

lemma descending_iff:
  "descending a low high cl sl mid sr cr \<longleftrightarrow>
    rd a cl <s rd a low \<and> rd a sl <s rd a cl \<and> rd a mid <s rd a sl \<and>
    rd a sr <s rd a mid \<and> rd a cr <s rd a sr \<and> rd a high <s rd a cr"
  by (auto simp: descending_def signed.not_le)

lemma candidates_eq:
  assumes "inb a low" "inb a cl" "inb a sl" "inb a mid" "inb a sr" "inb a cr" "inb a high"
    "low \<le> mid" "mid \<le> high + 1"
  shows "candidates a low high cl sl mid sr cr =
    (if descending a low high cl sl mid sr cr
     then Inr (swap_pairs a low high (nat (mid - low)))
     else Inr (sort_candidates a (if rd a low <s rd a cl then low else cl) sl mid sr
                 (if rd a cr <s rd a high then high else cr)))"
  using assms swap_rotate_refines[of a low high mid]
  by (simp add: candidates_def Let_def)

lemma candidates_perm:
  assumes "inb a low" "inb a cl" "inb a sl" "inb a mid" "inb a sr" "inb a cr" "inb a high"
    "low \<le> cl" "cl \<le> high" "low \<le> sl" "sl \<le> high" "low \<le> mid" "mid \<le> high"
    "low \<le> sr" "sr \<le> high" "low \<le> cr" "cr \<le> high"
  shows "\<exists>b. candidates a low high cl sl mid sr cr = Inr b \<and> mset b = mset a \<and>
    same_outside a b low high"
proof (cases "descending a low high cl sl mid sr cr")
  case True
  have "mset (swap_pairs a low high (nat (mid - low))) = mset a \<and>
        same_outside a (swap_pairs a low high (nat (mid - low))) low high"
    by (rule swap_pairs_perm) (use assms in \<open>auto simp: inb_def\<close>)
  then show ?thesis using True candidates_eq[of a low cl sl mid sr cr high] assms by simp
next
  case False
  define cl1 where "cl1 = (if rd a low <s rd a cl then low else cl)"
  define cr1 where "cr1 = (if rd a cr <s rd a high then high else cr)"
  have c1: "inb a cl1" "inb a cr1" "low \<le> cl1" "cl1 \<le> high" "low \<le> cr1" "cr1 \<le> high"
    using assms by (auto simp: cl1_def cr1_def)
  have "mset (sort_candidates a cl1 sl mid sr cr1) = mset a"
    by (rule mset_sort_candidates) (use assms c1 in auto)
  moreover have "same_outside a (sort_candidates a cl1 sl mid sr cr1) low high"
    by (rule sort_candidates_same_outside) (use assms c1 in auto)
  ultimately show ?thesis
    using False candidates_eq[of a low cl sl mid sr cr high] assms
    by (simp add: cl1_def cr1_def)
qed

section \<open>The claims about the driver\<close>

text \<open>
  C8. The six comparisons all fail exactly when the seven values are strictly descending.
  Then the driver does the swaps of \<open>low + i\<close> with \<open>high - i\<close> for \<open>i\<close> from 0 to
  \<open>mid - low - 1\<close> and nothing else (when \<open>mid\<close> is at most the middle of the interval
  this puts \<open>a[high - k]\<close> at \<open>low + k\<close> and \<open>a[low + k]\<close> at \<open>high - k\<close> for these
  \<open>k\<close> and leaves what lies between in place). In every other case it does no swap of
  that kind: it sorts the five candidates, \<open>cl\<close> widened to \<open>low\<close> when
  \<open>*low < *cl\<close> and \<open>cr\<close> to \<open>high\<close> when \<open>*high > *cr\<close>, which leaves them in
  non-decreasing order, permutes the array and touches no other place.
\<close>

theorem candidates_rotate_or_sort:
  fixes a :: "'a::len word list"
  assumes "inb a low" "inb a cl" "inb a sl" "inb a mid" "inb a sr" "inb a cr" "inb a high"
    and "low \<le> mid" "mid \<le> high"
  shows
    "(descending a low high cl sl mid sr cr \<longleftrightarrow>
        rd a cl <s rd a low \<and> rd a sl <s rd a cl \<and> rd a mid <s rd a sl \<and>
        rd a sr <s rd a mid \<and> rd a cr <s rd a sr \<and> rd a high <s rd a cr) \<and>
     candidates a low high cl sl mid sr cr =
       (if descending a low high cl sl mid sr cr
        then Inr (swap_pairs a low high (nat (mid - low)))
        else Inr (sort_candidates a (if rd a low <s rd a cl then low else cl) sl mid sr
                    (if rd a cr <s rd a high then high else cr))) \<and>
     (2 * (mid - low) \<le> high - low + 1 \<longrightarrow>
        (\<forall>i. inb a i \<longrightarrow>
           rd (swap_pairs a low high (nat (mid - low))) i =
             (if low \<le> i \<and> i < mid then rd a (high - (i - low))
              else if high - (mid - low) < i \<and> i \<le> high then rd a (low + (high - i))
              else rd a i))) \<and>
     (\<forall>cl1 cr1 b.
        cl1 = (if rd a low <s rd a cl then low else cl) \<and>
        cr1 = (if rd a cr <s rd a high then high else cr) \<and>
        b = sort_candidates a cl1 sl mid sr cr1 \<and>
        cl1 < sl \<and> sl < mid \<and> mid < sr \<and> sr < cr1 \<longrightarrow>
          rd b cl1 \<le>s rd b sl \<and> rd b sl \<le>s rd b mid \<and> rd b mid \<le>s rd b sr \<and>
          rd b sr \<le>s rd b cr1 \<and> mset b = mset a \<and>
          (\<forall>i. inb a i \<and> i \<noteq> cl1 \<and> i \<noteq> sl \<and> i \<noteq> mid \<and> i \<noteq> sr \<and> i \<noteq> cr1
              \<longrightarrow> rd b i = rd a i))"
proof (intro conjI)
  show "descending a low high cl sl mid sr cr \<longleftrightarrow>
        rd a cl <s rd a low \<and> rd a sl <s rd a cl \<and> rd a mid <s rd a sl \<and>
        rd a sr <s rd a mid \<and> rd a cr <s rd a sr \<and> rd a high <s rd a cr"
    by (rule descending_iff)
  show "candidates a low high cl sl mid sr cr =
       (if descending a low high cl sl mid sr cr
        then Inr (swap_pairs a low high (nat (mid - low)))
        else Inr (sort_candidates a (if rd a low <s rd a cl then low else cl) sl mid sr
                    (if rd a cr <s rd a high then high else cr)))"
    by (rule candidates_eq) (use assms in auto)
  show "2 * (mid - low) \<le> high - low + 1 \<longrightarrow>
        (\<forall>i. inb a i \<longrightarrow>
           rd (swap_pairs a low high (nat (mid - low))) i =
             (if low \<le> i \<and> i < mid then rd a (high - (i - low))
              else if high - (mid - low) < i \<and> i \<le> high then rd a (low + (high - i))
              else rd a i))"
  proof (intro impI allI)
    fix i assume h: "2 * (mid - low) \<le> high - low + 1" and i: "inb a i"
    have "rd (swap_pairs a low high (nat (mid - low))) i =
       (if low \<le> i \<and> i < low + int (nat (mid - low)) then rd a (high - (i - low))
        else if high - int (nat (mid - low)) < i \<and> i \<le> high then rd a (low + (high - i))
        else rd a i)"
      by (rule swap_pairs_rd) (use assms h i in \<open>auto simp: inb_def\<close>)
    then show "rd (swap_pairs a low high (nat (mid - low))) i =
             (if low \<le> i \<and> i < mid then rd a (high - (i - low))
              else if high - (mid - low) < i \<and> i \<le> high then rd a (low + (high - i))
              else rd a i)"
      using assms by simp
  qed
  show "\<forall>cl1 cr1 b.
        cl1 = (if rd a low <s rd a cl then low else cl) \<and>
        cr1 = (if rd a cr <s rd a high then high else cr) \<and>
        b = sort_candidates a cl1 sl mid sr cr1 \<and>
        cl1 < sl \<and> sl < mid \<and> mid < sr \<and> sr < cr1 \<longrightarrow>
          rd b cl1 \<le>s rd b sl \<and> rd b sl \<le>s rd b mid \<and> rd b mid \<le>s rd b sr \<and>
          rd b sr \<le>s rd b cr1 \<and> mset b = mset a \<and>
          (\<forall>i. inb a i \<and> i \<noteq> cl1 \<and> i \<noteq> sl \<and> i \<noteq> mid \<and> i \<noteq> sr \<and> i \<noteq> cr1
              \<longrightarrow> rd b i = rd a i)"
  proof (intro allI impI)
    fix cl1 cr1 b
    assume h: "cl1 = (if rd a low <s rd a cl then low else cl) \<and>
        cr1 = (if rd a cr <s rd a high then high else cr) \<and>
        b = sort_candidates a cl1 sl mid sr cr1 \<and>
        cl1 < sl \<and> sl < mid \<and> mid < sr \<and> sr < cr1"
    then have ib: "inb a cl1" "inb a sl" "inb a mid" "inb a sr" "inb a cr1"
      using assms by auto
    have ord: "cl1 < sl" "sl < mid" "mid < sr" "sr < cr1" using h by auto
    have b: "b = sort_candidates a cl1 sl mid sr cr1" using h by simp
    have "rd b cl1 \<le>s rd b sl \<and> rd b sl \<le>s rd b mid \<and> rd b mid \<le>s rd b sr \<and>
          rd b sr \<le>s rd b cr1"
      unfolding b by (rule sort_candidates_sorted[OF ib ord])
    moreover have "mset b = mset a"
      unfolding b by (rule mset_sort_candidates[OF ib])
    moreover have "rd b i = rd a i"
      if "inb a i \<and> i \<noteq> cl1 \<and> i \<noteq> sl \<and> i \<noteq> mid \<and> i \<noteq> sr \<and> i \<noteq> cr1" for i
      unfolding b using that by (intro rd_sort_candidates_other[OF ib]) auto
    ultimately show "rd b cl1 \<le>s rd b sl \<and> rd b sl \<le>s rd b mid \<and> rd b mid \<le>s rd b sr \<and>
          rd b sr \<le>s rd b cr1 \<and> mset b = mset a \<and>
          (\<forall>i. inb a i \<and> i \<noteq> cl1 \<and> i \<noteq> sl \<and> i \<noteq> mid \<and> i \<noteq> sr \<and> i \<noteq> cr1
              \<longrightarrow> rd b i = rd a i)"
      by blast
  qed
qed

theorem candidates_rotate_or_sort_witness:
  "inb [7, 6, 5, 4, 3, 2, 1 :: 8 word] 0 \<and> inb [7, 6, 5, 4, 3, 2, 1 :: 8 word] 1 \<and>
   inb [7, 6, 5, 4, 3, 2, 1 :: 8 word] 2 \<and> inb [7, 6, 5, 4, 3, 2, 1 :: 8 word] 3 \<and>
   inb [7, 6, 5, 4, 3, 2, 1 :: 8 word] 4 \<and> inb [7, 6, 5, 4, 3, 2, 1 :: 8 word] 5 \<and>
   inb [7, 6, 5, 4, 3, 2, 1 :: 8 word] 6 \<and> (0 :: int) \<le> 3 \<and> (3 :: int) \<le> 6 \<and>
   descending [7, 6, 5, 4, 3, 2, 1 :: 8 word] 0 6 1 2 3 4 5 \<and>
   candidates [7, 6, 5, 4, 3, 2, 1 :: 8 word] 0 6 1 2 3 4 5 = Inr [1, 2, 3, 4, 5, 6, 7] \<and>
   \<not> descending [7, 6, 5, 4, 3, 2, 8 :: 8 word] 0 6 1 2 3 4 5 \<and>
   candidates [7, 6, 5, 4, 3, 2, 8 :: 8 word] 0 6 1 2 3 4 5 = Inr [7, 3, 4, 5, 6, 2, 8]"
proof -
  let ?A = "[7, 6, 5, 4, 3, 2, 1 :: 8 word]"
  let ?B = "[7, 6, 5, 4, 3, 2, 8 :: 8 word]"
  have ib: "inb ?A 0" "inb ?A 1" "inb ?A 2" "inb ?A 3" "inb ?A 4" "inb ?A 5" "inb ?A 6"
    by (simp_all add: inb_def)
  have ib': "inb ?B 0" "inb ?B 1" "inb ?B 2" "inb ?B 3" "inb ?B 4" "inb ?B 5" "inb ?B 6"
    by (simp_all add: inb_def)
  have le: "(0 :: int) \<le> 3" "(3 :: int) \<le> 6" by simp_all
  have d: "descending ?A 0 6 1 2 3 4 5" by code_simp
  have nd: "\<not> descending ?B 0 6 1 2 3 4 5" by code_simp
  have sp: "swap_pairs ?A 0 6 (nat (3 - 0)) = [1, 2, 3, 4, 5, 6, 7]" by code_simp
  have sc: "sort_candidates ?B (if rd ?B 0 <s rd ?B 1 then 0 else 1) 2 3 4
              (if rd ?B 5 <s rd ?B 6 then 6 else 5) = [7, 3, 4, 5, 6, 2, 8]"
    by code_simp
  have 1: "candidates ?A 0 6 1 2 3 4 5 = Inr [1, 2, 3, 4, 5, 6, 7]"
    using candidates_rotate_or_sort[OF ib(1,2,3,4,5,6,7) le] d sp by simp
  have 2: "candidates ?B 0 6 1 2 3 4 5 = Inr [7, 3, 4, 5, 6, 2, 8]"
    using candidates_rotate_or_sort[OF ib'(1,2,3,4,5,6,7) le] nd sc by simp
  show ?thesis using ib le d nd 1 2 by simp
qed

text \<open>
  C5. When the main partition runs on \<open>[low, high]\<close> with pivot \<open>p = a[mid]\<close> and
  completes, the pivot is at \<open>l\<close>, everything in \<open>[low, l)\<close> is less than \<open>p\<close> and
  everything in \<open>(l, high]\<close> is at least \<open>p\<close>; it completes whenever \<open>p\<close> is not the
  least value of the type. The adjustments give \<open>g = l + 1\<close> exactly when \<open>l < high\<close>
  (else \<open>g = l\<close>) and decrement \<open>l\<close> exactly when \<open>l > low\<close>. The pivot position
  is outside the left side \<open>[low, l]\<close> when \<open>l > low\<close> and outside the right side
  \<open>[g, high]\<close> when \<open>l < high\<close>; at \<open>l = low\<close> the left side is the cell of the pivot
  alone, and at \<open>l = high\<close> the right side is.
\<close>

theorem main_partition_post:
  fixes a :: "'a::len word list"
  assumes "inb a low" "inb a high" "low \<le> mid" "mid \<le> high"
  shows
    "(rd a mid \<noteq> min_value \<longrightarrow> (\<exists>b l0 w. partition_main a low high mid x = Inr (b, l0, w))) \<and>
     (\<forall>b l0 w g l.
        partition_main a low high mid x = Inr (b, l0, w) \<and> skip_pivot low high l0 = (g, l) \<longrightarrow>
          low \<le> l0 \<and> l0 \<le> high \<and> permuted a b low high \<and>
          (\<forall>i. low \<le> i \<and> i < l0 \<longrightarrow> rd b i <s rd a mid) \<and>
          rd b l0 = rd a mid \<and>
          (\<forall>i. l0 < i \<and> i \<le> high \<longrightarrow> rd a mid \<le>s rd b i) \<and>
          g = (if l0 < high then l0 + 1 else l0) \<and>
          l = (if low < l0 then l0 - 1 else l0) \<and>
          (low < l0 \<longrightarrow> l0 \<notin> {low..l}) \<and> (l0 < high \<longrightarrow> l0 \<notin> {g..high}) \<and>
          (l0 = low \<longrightarrow> {low..l} = {l0}) \<and> (l0 = high \<longrightarrow> {g..high} = {l0}))"
proof (rule partition_main_cases[OF assms, of x])
  fix e assume "partition_main a low high mid x = Inl e" "rd a mid = min_value"
  then show ?thesis by simp
next
  fix b l w
  assume res: "partition_main a low high mid x = Inr (b, l, w)"
    and l: "low \<le> l" "l \<le> high"
    and ms: "mset b = mset a" and so: "same_outside a b low high"
    and lt: "\<forall>i. low \<le> i \<and> i < l \<longrightarrow> rd b i <s rd a mid"
    and eq: "rd b l = rd a mid"
    and ge: "\<forall>i. l < i \<and> i \<le> high \<longrightarrow> rd a mid \<le>s rd b i"
  have pm: "permuted a b low high"
    by (rule permutedI[OF ms so]) (use assms in \<open>auto simp: inb_def\<close>)
  show ?thesis
    unfolding res using l pm lt eq ge by (auto simp: skip_pivot_def)
qed

theorem main_partition_post_witness:
  "inb [1, 5, 3, 7, 2 :: 8 word] 0 \<and> inb [1, 5, 3, 7, 2 :: 8 word] 4 \<and>
   (0 :: int) \<le> 2 \<and> (2 :: int) \<le> 4 \<and>
   partition_main [1, 5, 3, 7, 2 :: 8 word] 0 4 2 4 = Inr ([1, 2, 3, 7, 5], 2, True) \<and>
   skip_pivot 0 4 2 = (3, 1) \<and>
   permuted [1, 5, 3, 7, 2 :: 8 word] [1, 2, 3, 7, 5] 0 4 \<and>
   (2 :: int) \<notin> {0..1} \<and> (2 :: int) \<notin> {3..4}"
proof -
  let ?A = "[1, 5, 3, 7, 2 :: 8 word]"
  have h: "inb ?A 0" "inb ?A 4" "(0 :: int) \<le> 2" "(2 :: int) \<le> 4"
    by (simp_all add: inb_def)
  have run: "partition_main ?A 0 4 2 4 = Inr ([1, 2, 3, 7, 5], 2, True)" by code_simp
  have sk: "skip_pivot 0 4 2 = (3, 1)" by (simp add: skip_pivot_def)
  from main_partition_post[OF h, of 4] run sk
  have "permuted ?A [1, 2, 3, 7, 5] 0 4 \<and> ((0 :: int) < 2 \<longrightarrow> (2 :: int) \<notin> {0..1}) \<and>
      ((2 :: int) < 4 \<longrightarrow> (2 :: int) \<notin> {3..4})"
    by blast
  then show ?thesis using h run sk by simp
qed

text \<open>
  On 88 equal elements, as the root frame of \<open>blipsort\<close> partitions them, the pivot
  ends at \<open>l = low\<close>: the left side is \<open>[low, low]\<close> and holds the pivot position.
\<close>

theorem pivot_in_left_side:
  "partition_main (replicate 88 (5 :: 8 word)) 0 87 43 87 = Inr (replicate 88 5, 0, False) \<and>
   skip_pivot 0 87 0 = (1, 0) \<and> (0 :: int) \<in> {0..0}"
proof -
  have "partition_main (replicate 88 (5 :: 8 word)) 0 87 43 87 = Inr (replicate 88 5, 0, False)"
    by code_simp
  then show ?thesis by (simp add: skip_pivot_def)
qed

text \<open>
  Each transformation inside \<open>qSort\<close>, where it runs to its end, leaves the subrange
  \<open>[low, high]\<close> a permutation of what it was and everything outside it in place: the
  candidate step as the driver runs it, the sorting network and the rotation on their own,
  \<open>scramble\<close>, the main partition (with its stopper \<open>p - 1\<close>) and partition left (with
  its stopper \<open>h + 1\<close>). For the gap loop itself the array with the gap filled is a
  permutation of the array with the gap filled at the start, whatever fills the gap. All of
  them run to their end, the main partition whenever its pivot is not the least value of the
  type.
\<close>

theorem transformations_permute:
  fixes a :: "'a::len word list"
  assumes "inb a low" "inb a high" "low \<le> high"
  shows
    "(\<forall>cl sl mid sr cr.
        low \<le> cl \<and> cl \<le> high \<and> low \<le> sl \<and> sl \<le> high \<and> low \<le> mid \<and> mid \<le> high \<and>
        low \<le> sr \<and> sr \<le> high \<and> low \<le> cr \<and> cr \<le> high \<longrightarrow>
          (\<exists>b. candidates a low high cl sl mid sr cr = Inr b \<and> permuted a b low high) \<and>
          permuted a (sort_candidates a cl sl mid sr cr) low high \<and>
          (\<exists>b. swap_rotate a low high mid = Inr b \<and> permuted a b low high)) \<and>
     (\<forall>len. 0 \<le> len \<and> len \<le> high - low \<longrightarrow>
          (\<exists>b. scramble a low high len = Inr b \<and> permuted a b low high)) \<and>
     (\<forall>c l k. low \<le> l \<and> l \<le> k \<and> k \<le> high \<longrightarrow>
          (\<exists>b l'. gap_loop c a l l k = Inr (b, l', k) \<and> same_outside a b low high \<and>
             (\<forall>v. mset (wr b k v) = mset (wr a l v)))) \<and>
     (\<forall>mid x b l w. low \<le> mid \<and> mid \<le> high \<and> partition_main a low high mid x = Inr (b, l, w)
          \<longrightarrow> permuted a b low high) \<and>
     (\<forall>mid x. low \<le> mid \<and> mid \<le> high \<and> rd a mid \<noteq> min_value \<longrightarrow>
          (\<exists>b l w. partition_main a low high mid x = Inr (b, l, w) \<and> permuted a b low high)) \<and>
     (\<forall>h j. inb a (low - 1) \<and> low \<le> j \<and> j \<le> high \<and> \<not> h <s rd a j \<longrightarrow>
          (\<exists>b l. partition_left a low high h = Inr (b, l) \<and> permuted a b low high))"
proof -
  have low0: "0 \<le> low" using assms by (simp add: inb_def)
  have inr: "inb a i" if "low \<le> i" "i \<le> high" for i
    using that assms by (auto simp: inb_def)
  have 1: "(\<exists>b. candidates a low high cl sl mid sr cr = Inr b \<and> permuted a b low high) \<and>
          permuted a (sort_candidates a cl sl mid sr cr) low high \<and>
          (\<exists>b. swap_rotate a low high mid = Inr b \<and> permuted a b low high)"
    if r: "low \<le> cl \<and> cl \<le> high \<and> low \<le> sl \<and> sl \<le> high \<and> low \<le> mid \<and> mid \<le> high \<and>
        low \<le> sr \<and> sr \<le> high \<and> low \<le> cr \<and> cr \<le> high" for cl sl mid sr cr
  proof (intro conjI)
    have ib: "inb a cl" "inb a sl" "inb a mid" "inb a sr" "inb a cr"
      using r by (auto intro: inr)
    have "\<exists>b. candidates a low high cl sl mid sr cr = Inr b \<and> mset b = mset a \<and>
        same_outside a b low high"
      by (rule candidates_perm) (use assms ib r in auto)
    then show "\<exists>b. candidates a low high cl sl mid sr cr = Inr b \<and> permuted a b low high"
      using low0 by (auto intro: permutedI)
    show "permuted a (sort_candidates a cl sl mid sr cr) low high"
      by (rule permutedI[OF mset_sort_candidates[OF ib] sort_candidates_same_outside[OF ib] low0])
         (use r in auto)
    have "\<exists>b. swap_rotate a low high mid = Inr b \<and> mset b = mset a \<and> same_outside a b low high"
      by (rule swap_rotate_perm) (use assms r in auto)
    then show "\<exists>b. swap_rotate a low high mid = Inr b \<and> permuted a b low high"
      using low0 by (auto intro: permutedI)
  qed
  have 2: "\<exists>b. scramble a low high len = Inr b \<and> permuted a b low high"
    if r: "0 \<le> len \<and> len \<le> high - low" for len
  proof -
    obtain b where b: "scramble a low high len = Inr b"
      using scramble_total[of a low high len] assms r by auto
    from scramble_perm[OF b] r have "mset b = mset a \<and> same_outside a b low high" by simp
    then show ?thesis using b low0 by (auto intro: permutedI)
  qed
  have 3: "\<exists>b l'. gap_loop c a l l k = Inr (b, l', k) \<and> same_outside a b low high \<and>
             (\<forall>v. mset (wr b k v) = mset (wr a l v))"
    if r: "low \<le> l \<and> l \<le> k \<and> k \<le> high" for c :: "'a word \<Rightarrow> bool" and l k
  proof -
    have "\<exists>b l'. gap_loop c a l l k = Inr (b, l', k) \<and> l \<le> l' \<and> l' \<le> k \<and>
      same_outside a b l k \<and>
      (\<forall>v. mset (wr b k v) = mset (wr a l v)) \<and>
      (\<forall>i. l \<le> i \<and> i < l' \<longrightarrow> c (rd b i)) \<and>
      (\<forall>i. l' \<le> i \<and> i < k \<longrightarrow> \<not> c (rd b i))"
      by (rule gap_loop_post) (use r inr in auto)
    then obtain b l' where run: "gap_loop c a l l k = Inr (b, l', k)"
      and so: "same_outside a b l k"
      and ms: "\<forall>v. mset (wr b k v) = mset (wr a l v)"
      by blast
    have "same_outside a b low high"
      by (rule same_outside_mono[OF so]) (use r in auto)
    then show ?thesis using run ms by blast
  qed
  have 4: "permuted a b low high"
    if r: "low \<le> mid \<and> mid \<le> high \<and> partition_main a low high mid x = Inr (b, l, w)"
    for mid x b l w
  proof (rule partition_main_cases[OF assms(1,2), of mid x])
    show "low \<le> mid" "mid \<le> high" using r by auto
  next
    fix e assume "partition_main a low high mid x = Inl e"
    then show ?thesis using r by simp
  next
    fix b' l' w'
    assume "partition_main a low high mid x = Inr (b', l', w')"
      "mset b' = mset a" "same_outside a b' low high"
    then show ?thesis using r low0 by (auto intro: permutedI)
  qed
  have tot: "\<exists>b l w. partition_main a low high mid x = Inr (b, l, w) \<and> permuted a b low high"
    if r: "low \<le> mid \<and> mid \<le> high \<and> rd a mid \<noteq> min_value" for mid x
  proof (rule partition_main_cases[OF assms(1,2), of mid x])
    show "low \<le> mid" "mid \<le> high" using r by auto
  next
    fix e assume "rd a mid = min_value"
    then show ?thesis using r by simp
  next
    fix b' l' w'
    assume "partition_main a low high mid x = Inr (b', l', w')"
      "mset b' = mset a" "same_outside a b' low high"
    then show ?thesis using low0 by (auto intro: permutedI)
  qed
  have 5: "\<exists>b l. partition_left a low high h = Inr (b, l) \<and> permuted a b low high"
    if r: "inb a (low - 1) \<and> low \<le> j \<and> j \<le> high \<and> \<not> h <s rd a j" for h j
  proof -
    have "\<exists>b l. partition_left a low high h = Inr (b, l) \<and>
      mset b = mset a \<and> same_outside a b low high"
      by (rule partition_left_perm[of a low high j h]) (use r assms in auto)
    then show ?thesis using low0 by (auto intro: permutedI)
  qed
  show ?thesis
    by (intro conjI; intro allI impI;
        (erule 1 | erule 2 | erule 3 | erule 4 | erule tot | erule 5))
qed

theorem transformations_permute_witness:
  "inb [3, 1, 2 :: 8 word] 0 \<and> inb [3, 1, 2 :: 8 word] 2 \<and> (0 :: int) \<le> 2 \<and>
   permuted [3, 1, 2 :: 8 word] (sort_candidates [3, 1, 2] 0 0 1 2 2) 0 2 \<and>
   sort_candidates [3, 1, 2 :: 8 word] 0 0 1 2 2 = [1, 2, 3] \<and>
   (\<exists>b. partition_main [3, 1, 2 :: 8 word] 0 2 1 2 = Inr (b, 0, False) \<and>
        permuted [3, 1, 2 :: 8 word] b 0 2)"
proof -
  let ?A = "[3, 1, 2 :: 8 word]"
  have h: "inb ?A 0" "inb ?A 2" "(0 :: int) \<le> 2" by (simp_all add: inb_def)
  have sc: "sort_candidates ?A 0 0 1 2 2 = [1, 2, 3]" by code_simp
  have pm: "partition_main ?A 0 2 1 2 = Inr ([1, 3, 2], 0, False)" by code_simp
  note t = transformations_permute[OF h]
  have "permuted ?A (sort_candidates ?A 0 0 1 2 2) 0 2"
    using t[THEN conjunct1, rule_format, of 0 0 1 2 2] by simp
  moreover have "permuted ?A [1, 3, 2] 0 2"
    using t[THEN conjunct2, THEN conjunct2, THEN conjunct2, THEN conjunct1, rule_format,
        of 1 2 "[1, 3, 2]" 0 False] pm by simp
  ultimately show ?thesis using h sc pm by simp
qed

lemma candidates_Inr:
  assumes "candidates a low high cl sl mid sr cr = Inr b"
  shows "inb a low \<and> inb a cl \<and> inb a sl \<and> inb a mid \<and> inb a sr \<and> inb a cr \<and> inb a high"
  using assms by (auto simp: candidates_def split: if_splits)

lemma swap_rotate_length: "swap_rotate a u q mid = Inr b \<Longrightarrow> length b = length a"
proof (induction a u q mid rule: swap_rotate.induct)
  case (1 a u q mid)
  show ?case
  proof (cases "u < mid")
    case False
    then show ?thesis using "1.prems" by (simp add: swap_rotate_exit)
  next
    case True
    then have ib: "inb a u \<and> inb a q"
      using "1.prems" by (subst (asm) swap_rotate.simps) (auto split: if_splits)
    then have "swap_rotate (exchange a u q) (u + 1) (q - 1) mid = Inr b"
      using "1.prems" True swap_rotate_step[of u mid a q] by simp
    then have "length b = length (exchange a u q)"
      using "1.IH"[OF True] ib by (simp add: exchange_def Let_def)
    then show ?thesis by simp
  qed
qed

lemma candidates_length:
  assumes "candidates a low high cl sl mid sr cr = Inr b"
  shows "length b = length a"
  using assms swap_rotate_length[of a low high mid b]
  by (auto simp: candidates_def Let_def split: if_splits)

text \<open>
  C7. In a frame that is not \<open>leftmost\<close> and has passed the two cut-offs, after the
  candidate step has produced \<open>a1\<close>: when \<open>h = a1[low - 1]\<close> equals one of
  \<open>a1[sl]\<close>, \<open>a1[mid]\<close>, \<open>a1[sr]\<close> and no element of \<open>[low, high]\<close> is less than
  \<open>h\<close>, partition left permutes the subrange into the elements equal to \<open>h\<close> followed by
  the elements greater than \<open>h\<close>; the new \<open>low\<close> is the first index \<open>l\<close> of the second
  block and is greater than the old one; the frame returns when \<open>l \<ge> high\<close> and is
  otherwise the frame on \<open>[l, high]\<close>.
\<close>

theorem partition_left_pass:
  fixes a a1 :: "'a::len word list"
  assumes x: "x = u32 (high - low)"
    and ptr: "third = x div 4 + x div 4 div 2" "sixth = third div 2" "mid = low + x div 2"
      "sl = low + third" "sr = high - third" "cl = low + sixth" "cr = high - sixth"
    and frame: "root \<or> (InsertionThreshold \<le> x \<and> 0 \<le> height)"
    and rng: "low \<le> high" "high - low < 4294967296"
    and cand: "candidates a low high cl sl mid sr cr = Inr a1"
    and nl: "\<not> leftmost"
    and h: "inb a1 (low - 1)" "h = rd a1 (low - 1)"
    and eq: "h = rd a1 sl \<or> h = rd a1 mid \<or> h = rd a1 sr"
    and ge: "\<forall>i. low \<le> i \<and> i \<le> high \<longrightarrow> h \<le>s rd a1 i"
  shows "\<exists>b l. partition_left a1 low high h = Inr (b, l) \<and> low < l \<and> l \<le> high + 1 \<and>
      permuted a1 b low high \<and>
      (\<forall>i. low \<le> i \<and> i < l \<longrightarrow> rd b i = h) \<and>
      (\<forall>i. l \<le> i \<and> i \<le> high \<longrightarrow> h <s rd b i) \<and>
      qSort root leftmost a low high height =
        (if high \<le> l then Some (Inr b) else qSort root leftmost b l high height)"
proof -
  have xv: "x = high - low" using rng by (simp add: x u32_def)
  have t: "0 \<le> third" "third \<le> x" "0 \<le> x div 2" "x div 2 \<le> x"
    using rng by (auto simp: ptr xv)
  have pos: "low \<le> sl" "sl \<le> high" "low \<le> mid" "mid \<le> high" "low \<le> sr" "sr \<le> high"
    using t by (auto simp: ptr xv)
  have len: "length a1 = length a" by (rule candidates_length[OF cand])
  have ib1: "inb a1 k = inb a k" for k using len by (simp add: inb_def)
  have iba: "inb a1 sl" "inb a1 mid" "inb a1 sr" "inb a1 high"
    using candidates_Inr[OF cand] by (simp_all add: ib1)
  obtain j where j: "low \<le> j" "j \<le> high" "rd a1 j = h"
    using eq pos by metis
  have "\<exists>b l. partition_left a1 low high h = Inr (b, l) \<and> low < l \<and> l \<le> high + 1 \<and>
      mset b = mset a1 \<and> same_outside a1 b low high \<and>
      (\<forall>i. low \<le> i \<and> i < l \<longrightarrow> rd b i = h) \<and>
      (\<forall>i. l \<le> i \<and> i \<le> high \<longrightarrow> h <s rd b i)"
    by (rule partition_left_post[OF h(1) iba(4) j ge])
  then obtain b l where
    pl: "partition_left a1 low high h = Inr (b, l)" and l: "low < l" "l \<le> high + 1" and
    ms: "mset b = mset a1" and so: "same_outside a1 b low high" and
    eqs: "\<forall>i. low \<le> i \<and> i < l \<longrightarrow> rd b i = h" and
    gts: "\<forall>i. l \<le> i \<and> i \<le> high \<longrightarrow> h <s rd b i"
    by blast
  have pm: "permuted a1 b low high"
    by (rule permutedI[OF ms so]) (use h in \<open>auto simp: inb_def\<close>)
  have el: "equal_left leftmost a1 low sl mid sr = Inr True"
    using nl h iba eq by (simp add: equal_left_def Let_def)
  have c1: "(\<not> root \<and> x < InsertionThreshold) = False" and c2: "(\<not> root \<and> height < 0) = False"
    using frame by auto
  have "qSort root leftmost a low high height =
        (if high \<le> l then Some (Inr b) else qSort root leftmost b l high height)"
    by (subst qSort.simps)
       (simp only: Let_def x[symmetric] c1 c2 if_False cand[unfolded ptr] el[unfolded ptr]
          pl[unfolded h(2)] sum.case prod.case if_True)
  then show ?thesis using pl l pm eqs gts by blast
qed

theorem partition_left_pass_witness:
  "(4 :: int) = u32 (5 - 1) \<and>
   candidates [5, 5, 7, 5, 9, 5 :: 8 word] 1 5 1 2 3 4 5 = Inr [5, 5, 5, 5, 7, 9] \<and>
   inb [5, 5, 5, 5, 7, 9 :: 8 word] (1 - 1) \<and>
   (5 :: 8 word) = rd [5, 5, 5, 5, 7, 9] (1 - 1) \<and>
   (5 :: 8 word) = rd [5, 5, 5, 5, 7, 9] 2 \<and>
   (5 :: 8 word) \<le>s rd [5, 5, 5, 5, 7, 9] 1 \<and> (5 :: 8 word) \<le>s rd [5, 5, 5, 5, 7, 9] 2 \<and>
   (5 :: 8 word) \<le>s rd [5, 5, 5, 5, 7, 9] 3 \<and> (5 :: 8 word) \<le>s rd [5, 5, 5, 5, 7, 9] 4 \<and>
   (5 :: 8 word) \<le>s rd [5, 5, 5, 5, 7, 9] 5 \<and>
   partition_left [5, 5, 5, 5, 7, 9 :: 8 word] 1 5 5 = Inr ([5, 5, 5, 5, 7, 9], 4) \<and>
   qSort True False [5, 5, 7, 5, 9, 5 :: 8 word] 1 5 0 =
     qSort True False [5, 5, 5, 5, 7, 9] 4 5 0"
proof -
  let ?A = "[5, 5, 7, 5, 9, 5 :: 8 word]"
  let ?A1 = "[5, 5, 5, 5, 7, 9 :: 8 word]"
  have x: "(4 :: int) = u32 (5 - 1)" by (simp add: u32_def)
  have ptr: "(1 :: int) = 4 div 4 + 4 div 4 div 2" "(0 :: int) = 1 div 2" "(3 :: int) = 1 + 4 div 2"
    "(2 :: int) = 1 + 1" "(4 :: int) = 5 - 1" "(1 :: int) = 1 + 0" "(5 :: int) = 5 - 0"
    by simp_all
  have frame: "True \<or> (InsertionThreshold \<le> (4 :: int) \<and> (0 :: int) \<le> 0)" by simp
  have rng: "(1 :: int) \<le> 5" "(5 :: int) - 1 < 4294967296" by simp_all
  have cand: "candidates ?A 1 5 1 2 3 4 5 = Inr ?A1" by code_simp
  have nl: "\<not> False" by simp
  have h: "inb ?A1 (1 - 1)" "(5 :: 8 word) = rd ?A1 (1 - 1)"
    by (simp_all add: inb_def rd_def)
  have eq: "(5 :: 8 word) = rd ?A1 2 \<or> (5 :: 8 word) = rd ?A1 3 \<or> (5 :: 8 word) = rd ?A1 4"
    by (simp add: rd_def)
  have "\<forall>i \<in> set [1..5]. (5 :: 8 word) \<le>s rd ?A1 i" by code_simp
  then have ge: "\<forall>i. 1 \<le> i \<and> i \<le> 5 \<longrightarrow> (5 :: 8 word) \<le>s rd ?A1 i" by simp
  have pl: "partition_left ?A1 1 5 5 = Inr (?A1, 4)" by code_simp
  from partition_left_pass[OF x ptr frame rng cand nl h eq ge] pl
  have "qSort True False ?A 1 5 0 =
      (if (5 :: int) \<le> 4 then Some (Inr ?A1) else qSort True False ?A1 4 5 0)"
    by auto
  then have q: "qSort True False ?A 1 5 0 = qSort True False ?A1 4 5 0" by simp
  have e2: "(5 :: 8 word) = rd ?A1 2" by (simp add: rd_def)
  have g5: "(5 :: 8 word) \<le>s rd ?A1 1" "(5 :: 8 word) \<le>s rd ?A1 2" "(5 :: 8 word) \<le>s rd ?A1 3"
    "(5 :: 8 word) \<le>s rd ?A1 4" "(5 :: 8 word) \<le>s rd ?A1 5"
    using ge by simp_all
  show ?thesis using x cand h e2 g5 pl q by blast
qed

text \<open>
  C4. In a frame that is not the root, an interval of width below 88 is sorted by
  \<open>iSort<E, false>\<close>, that is with the bail-out disabled, and the frame returns: the
  subrange is then sorted and a permutation of what it was. (The frame is given a subrange
  inside the array and, unless \<open>leftmost\<close>, one bounded on its left.)
\<close>

theorem small_interval_insertion_sort:
  fixes a :: "'a::len word list"
  assumes "u32 (high - low) < InsertionThreshold"
    and "inb a low" "inb a high" "low \<le> high" "leftmost \<or> left_bounded a low high"
  shows "\<exists>b. iSort False leftmost a low high = Inr (b, True) \<and>
      qSort False leftmost a low high height = Some (Inr b) \<and>
      sorted_wrt (\<le>s) (slice b low high) \<and> permuted a b low high"
proof -
  from iSort_moves_post[OF assms(2,3,4,5), of False]
  obtain b m where run: "iSort_moves False leftmost a low high = Inr (b, m, True)"
    and ms: "mset b = mset a" and so: "same_outside a b low high"
    and asc: "ascending b low high"
    by auto
  have isr: "iSort False leftmost a low high = Inr (b, True)"
    by (simp add: iSort_def run)
  have q: "qSort False leftmost a low high height = Some (Inr b)"
    by (subst qSort.simps) (simp add: Let_def assms(1) isr)
  have len: "length b = length a" using so by (simp add: same_outside_def)
  have "sorted_wrt (\<le>s) (slice b low high)"
    using asc ascending_sorted_wrt[of low high b] assms len by (simp add: inb_def)
  moreover have "permuted a b low high"
    by (rule permutedI[OF ms so]) (use assms in \<open>simp add: inb_def\<close>)
  ultimately show ?thesis using isr q by blast
qed

theorem small_interval_insertion_sort_witness:
  "u32 (2 - 0) < InsertionThreshold \<and> inb [3, 1, 2 :: 8 word] 0 \<and> inb [3, 1, 2 :: 8 word] 2 \<and>
   (0 :: int) \<le> 2 \<and>
   iSort False True [3, 1, 2 :: 8 word] 0 2 = Inr ([1, 2, 3], True) \<and>
   qSort False True [3, 1, 2 :: 8 word] 0 2 0 = Some (Inr [1, 2, 3]) \<and>
   sorted_wrt (\<le>s) (slice [1, 2, 3 :: 8 word] 0 2)"
proof -
  let ?A = "[3, 1, 2 :: 8 word]"
  have h: "u32 (2 - 0) < InsertionThreshold" "inb ?A 0" "inb ?A 2" "(0 :: int) \<le> 2"
    "True \<or> left_bounded ?A 0 2"
    by (simp_all add: u32_def InsertionThreshold_def inb_def)
  have ev: "iSort False True ?A 0 2 = Inr ([1, 2, 3], True)" by code_simp
  from small_interval_insertion_sort[OF h, of 0] ev
  have "qSort False True ?A 0 2 0 = Some (Inr [1, 2, 3]) \<and>
      sorted_wrt (\<le>s) (slice [1, 2, 3 :: 8 word] 0 2)"
    by auto
  then show ?thesis using h ev by simp
qed

text \<open>
  With the bail-out enabled the result is another one: on ten descending elements
  \<open>iSort<E, true>\<close> gives up after its fourth insertion and leaves the subrange unsorted,
  while the frame of \<open>qSort\<close> returns it sorted.
\<close>

theorem small_interval_not_bail:
  "iSort True True [10, 9, 8, 7, 6, 5, 4, 3, 2, 1 :: 8 word] 0 9 =
     Inr ([6, 7, 8, 9, 10, 5, 4, 3, 2, 1], False) \<and>
   qSort False True [10, 9, 8, 7, 6, 5, 4, 3, 2, 1 :: 8 word] 0 9 6 =
     Some (Inr [1, 2, 3, 4, 5, 6, 7, 8, 9, 10])"
  by code_simp

text \<open>
  C6. A call of \<open>iSort\<close> on a subrange inside the array (bounded on its left unless
  \<open>leftmost\<close>) returns; with \<open>Bail\<close> false it returns true; it returns false only with
  \<open>Bail\<close> true and more than 8 moves counted; in every case the subrange is a permutation
  of what it was, and it is sorted when true is returned. In \<open>qSort\<close> the two optimistic
  calls are the only ones whose flag is read. The frame returns after them only when both
  returned true, and it does return then. When the first returns false the frame arrives at
  the label \<open>l1\<close> with the array that call left and the same \<open>height\<close>; when the first
  returns true and the second false it jumps to \<open>l2\<close> with the array the second left.
  From \<open>l1\<close> the left side is sorted by \<open>qSort\<close> and then the right side, from \<open>l2\<close>
  the right side alone: the frame goes on sorting. The result of \<open>qSort\<close> and \<open>blipsort\<close>
  carries no flag.
\<close>

theorem iSort_bail_out:
  fixes a :: "'a::len word list"
  assumes "inb a low" "inb a high" "low \<le> high" "leftmost \<or> left_bounded a low high"
  shows
    "(\<exists>b m ok. iSort_moves bail leftmost a low high = Inr (b, m, ok) \<and>
        iSort bail leftmost a low high = Inr (b, ok) \<and>
        (\<not> bail \<longrightarrow> ok) \<and> (\<not> ok \<longrightarrow> bail \<and> AscendingThreshold < m) \<and>
        permuted a b low high \<and> (ok \<longrightarrow> sorted_wrt (\<le>s) (slice b low high))) \<and>
     (\<forall>lm (c :: 'a word list) lo l g hi x work ht b.
        optimism lm c lo l g hi x work ht = Inr (Done b) \<longrightarrow>
          (\<exists>c1. iSort True lm c lo l = Inr (c1, True) \<and>
                iSort True False c1 g hi = Inr (b, True))) \<and>
     (\<forall>lm (c :: 'a word list) lo l g hi x work ht b ht1.
        optimism lm c lo l g hi x work ht = Inr (Cont False b ht1) \<longrightarrow>
          (\<exists>c1. iSort True lm c lo l = Inr (c1, True) \<and>
                iSort True False c1 g hi = Inr (b, False))) \<and>
     (\<forall>lm (c :: 'a word list) lo l g hi x ht c1.
        x div 8 \<le> u32 (l - lo) \<and> x div 8 \<le> u32 (hi - g) \<and>
        iSort True lm c lo l = Inr (c1, False) \<longrightarrow>
          optimism lm c lo l g hi x False ht = Inr (Cont True c1 ht)) \<and>
     (\<forall>lm (c :: 'a word list) lo l g hi x ht c1 c2.
        x div 8 \<le> u32 (l - lo) \<and> x div 8 \<le> u32 (hi - g) \<and>
        iSort True lm c lo l = Inr (c1, True) \<and> iSort True False c1 g hi = Inr (c2, False) \<longrightarrow>
          optimism lm c lo l g hi x False ht = Inr (Cont False c2 ht)) \<and>
     (\<forall>lm (c :: 'a word list) lo l g hi x ht c1 c2.
        x div 8 \<le> u32 (l - lo) \<and> x div 8 \<le> u32 (hi - g) \<and>
        iSort True lm c lo l = Inr (c1, True) \<and> iSort True False c1 g hi = Inr (c2, True) \<longrightarrow>
          optimism lm c lo l g hi x False ht = Inr (Done c2)) \<and>
     (\<forall>root lm (c :: 'a word list) lo hi ht x third sixth mid sl sr cl cr c1 c2 l0 work g l.
        x = u32 (hi - lo) \<and> third = x div 4 + x div 4 div 2 \<and> sixth = third div 2 \<and>
        mid = lo + x div 2 \<and> sl = lo + third \<and> sr = hi - third \<and>
        cl = lo + sixth \<and> cr = hi - sixth \<and>
        (root \<or> (InsertionThreshold \<le> x \<and> 0 \<le> ht)) \<and>
        candidates c lo hi cl sl mid sr cr = Inr c1 \<and>
        equal_left lm c1 lo sl mid sr = Inr False \<and>
        partition_main c1 lo hi mid x = Inr (c2, l0, work) \<and>
        skip_pivot lo hi l0 = (g, l) \<longrightarrow>
          qSort root lm c lo hi ht =
            (case optimism lm c2 lo l g hi x work ht of
               Inl e \<Rightarrow> Some (Inl e)
             | Inr (Done c3) \<Rightarrow> Some (Inr c3)
             | Inr (Cont left c3 ht1) \<Rightarrow>
                 Option.bind
                   (if left then qSort False lm c3 lo l ht1 else Some (Inr c3))
                   (\<lambda>res. case res of
                      Inl e \<Rightarrow> Some (Inl e)
                    | Inr c4 \<Rightarrow>
                        if root \<and> u32 (hi - g) < InsertionThreshold then
                          Some (case iSort False False c4 g hi of
                                  Inl e \<Rightarrow> Inl e
                                | Inr (c5, ok) \<Rightarrow> Inr c5)
                        else if root \<and> ht1 < 0 then Some (hSort c4 g hi)
                        else qSort root False c4 g hi ht1)))"
proof -
  have p1: "\<exists>b m ok. iSort_moves bail leftmost a low high = Inr (b, m, ok) \<and>
        iSort bail leftmost a low high = Inr (b, ok) \<and>
        (\<not> bail \<longrightarrow> ok) \<and> (\<not> ok \<longrightarrow> bail \<and> AscendingThreshold < m) \<and>
        permuted a b low high \<and> (ok \<longrightarrow> sorted_wrt (\<le>s) (slice b low high))"
  proof -
    from iSort_moves_post[OF assms, of bail]
    obtain b m ok where run: "iSort_moves bail leftmost a low high = Inr (b, m, ok)"
      and ms: "mset b = mset a" and so: "same_outside a b low high"
      and asc: "ok \<longrightarrow> ascending b low high"
      and bad: "\<not> ok \<longrightarrow> bail \<and> AscendingThreshold < m" and nb: "\<not> bail \<longrightarrow> ok"
      by blast
    have isr: "iSort bail leftmost a low high = Inr (b, ok)"
      by (simp add: iSort_def run)
    have len: "length b = length a" using so by (simp add: same_outside_def)
    have srt: "ok \<longrightarrow> sorted_wrt (\<le>s) (slice b low high)"
      using asc ascending_sorted_wrt[of low high b] assms len by (simp add: inb_def)
    have pm: "permuted a b low high"
      by (rule permutedI[OF ms so]) (use assms in \<open>simp add: inb_def\<close>)
    show ?thesis using run isr nb bad pm srt by blast
  qed
  have p2: "\<exists>c1. iSort True lm c lo l = Inr (c1, True) \<and> iSort True False c1 g hi = Inr (b, True)"
    if "optimism lm c lo l g hi x work ht = Inr (Done b)"
    for lm and c :: "'a word list" and lo l g hi x work ht b
    using that by (auto simp: optimism_def Let_def split: if_splits sum.splits)
  have p3: "\<exists>c1. iSort True lm c lo l = Inr (c1, True) \<and> iSort True False c1 g hi = Inr (b, False)"
    if "optimism lm c lo l g hi x work ht = Inr (Cont False b ht1)"
    for lm and c :: "'a word list" and lo l g hi x work ht b ht1
    using that by (auto simp: optimism_def Let_def split: if_splits sum.splits)
  have p4: "optimism lm c lo l g hi x False ht = Inr (Cont True c1 ht)"
    if "x div 8 \<le> u32 (l - lo) \<and> x div 8 \<le> u32 (hi - g) \<and>
        iSort True lm c lo l = Inr (c1, False)"
    for lm and c :: "'a word list" and lo l g hi x ht c1
    using that by (simp add: optimism_def Let_def)
  have p5: "optimism lm c lo l g hi x False ht = Inr (Cont False c2 ht)"
    if "x div 8 \<le> u32 (l - lo) \<and> x div 8 \<le> u32 (hi - g) \<and>
        iSort True lm c lo l = Inr (c1, True) \<and> iSort True False c1 g hi = Inr (c2, False)"
    for lm and c :: "'a word list" and lo l g hi x ht c1 c2
    using that by (simp add: optimism_def Let_def)
  have p6: "optimism lm c lo l g hi x False ht = Inr (Done c2)"
    if "x div 8 \<le> u32 (l - lo) \<and> x div 8 \<le> u32 (hi - g) \<and>
        iSort True lm c lo l = Inr (c1, True) \<and> iSort True False c1 g hi = Inr (c2, True)"
    for lm and c :: "'a word list" and lo l g hi x ht c1 c2
    using that by (simp add: optimism_def Let_def)
  have p7: "qSort root lm c lo hi ht =
            (case optimism lm c2 lo l g hi x work ht of
               Inl e \<Rightarrow> Some (Inl e)
             | Inr (Done c3) \<Rightarrow> Some (Inr c3)
             | Inr (Cont left c3 ht1) \<Rightarrow>
                 Option.bind
                   (if left then qSort False lm c3 lo l ht1 else Some (Inr c3))
                   (\<lambda>res. case res of
                      Inl e \<Rightarrow> Some (Inl e)
                    | Inr c4 \<Rightarrow>
                        if root \<and> u32 (hi - g) < InsertionThreshold then
                          Some (case iSort False False c4 g hi of
                                  Inl e \<Rightarrow> Inl e
                                | Inr (c5, ok) \<Rightarrow> Inr c5)
                        else if root \<and> ht1 < 0 then Some (hSort c4 g hi)
                        else qSort root False c4 g hi ht1))"
    if r: "x = u32 (hi - lo) \<and> third = x div 4 + x div 4 div 2 \<and> sixth = third div 2 \<and>
        mid = lo + x div 2 \<and> sl = lo + third \<and> sr = hi - third \<and>
        cl = lo + sixth \<and> cr = hi - sixth \<and>
        (root \<or> (InsertionThreshold \<le> x \<and> 0 \<le> ht)) \<and>
        candidates c lo hi cl sl mid sr cr = Inr c1 \<and>
        equal_left lm c1 lo sl mid sr = Inr False \<and>
        partition_main c1 lo hi mid x = Inr (c2, l0, work) \<and>
        skip_pivot lo hi l0 = (g, l)"
    for root lm and c :: "'a word list" and lo hi ht x third sixth mid sl sr cl cr c1 c2 l0 work g l
  proof -
    have x: "x = u32 (hi - lo)" using r by blast
    have ptr: "third = x div 4 + x div 4 div 2" "sixth = third div 2" "mid = lo + x div 2"
      "sl = lo + third" "sr = hi - third" "cl = lo + sixth" "cr = hi - sixth"
      using r by blast+
    have cand: "candidates c lo hi cl sl mid sr cr = Inr c1"
      and el: "equal_left lm c1 lo sl mid sr = Inr False"
      and pm: "partition_main c1 lo hi mid x = Inr (c2, l0, work)"
      and sk: "skip_pivot lo hi l0 = (g, l)"
      using r by blast+
    have c1: "(\<not> root \<and> x < InsertionThreshold) = False" and c2: "(\<not> root \<and> ht < 0) = False"
      using r by auto
    show ?thesis
      by (subst qSort.simps)
         (simp only: Let_def x[symmetric] c1 c2 if_False cand[unfolded ptr] el[unfolded ptr]
            pm[unfolded ptr] sk sum.case prod.case if_True)
  qed
  show ?thesis
  proof (intro conjI allI impI, goal_cases)
    case 1
    show ?case by (rule p1)
  next
    case 2
    then show ?case by (rule p2)
  next
    case 3
    then show ?case by (rule p3)
  next
    case 4
    then show ?case by (rule p4)
  next
    case 5
    then show ?case by (rule p5)
  next
    case 6
    then show ?case by (rule p6)
  next
    case 7
    then show ?case by (rule p7)
  qed
qed

theorem iSort_bail_out_witness:
  "(let A = 
       [1, 0, 3, 2, 5, 4, 7, 6, 9, 8, 11, 10, 13, 12, 15, 14, 17, 16, 19, 18, 21, 20, 23, 22,
        25, 24, 27, 26, 29, 28, 31, 30, 33, 32, 35, 34, 37, 36, 39, 38, 40, 41, 42, 43, 44, 45,
        46, 47, 48, 49, 50, 51, 52, 53, 54, 55, 56, 57, 58, 59, 60, 61, 62, 63, 64, 65, 66, 67,
        68, 69, 70, 71, 72, 73, 74, 75, 76, 77, 78, 79, 80, 81, 82, 83, 84, 85, 86, 87, 88, 89,
        90, 91, 92, 93, 94, 95, 96, 97, 98, 99 :: 8 word];
       B =
       [0, 1, 2, 3, 4, 5, 6, 7, 8, 9, 10, 11, 12, 13, 14, 15, 16, 17, 19, 18, 21, 20, 23, 22,
        25, 24, 27, 26, 29, 28, 31, 30, 33, 32, 35, 34, 37, 36, 39, 38, 40, 41, 42, 43, 44, 45,
        46, 47, 48, 49, 50, 51, 52, 53, 54, 55, 56, 57, 58, 59, 60, 61, 62, 63, 64, 65, 66, 67,
        68, 69, 70, 71, 72, 73, 74, 75, 76, 77, 78, 79, 80, 81, 82, 83, 84, 85, 86, 87, 88, 89,
        90, 91, 92, 93, 94, 95, 96, 97, 98, 99 :: 8 word];
       S =
       [0, 1, 2, 3, 4, 5, 6, 7, 8, 9, 10, 11, 12, 13, 14, 15, 16, 17, 18, 19, 20, 21, 22, 23,
        24, 25, 26, 27, 28, 29, 30, 31, 32, 33, 34, 35, 36, 37, 38, 39, 40, 41, 42, 43, 44, 45,
        46, 47, 48, 49, 50, 51, 52, 53, 54, 55, 56, 57, 58, 59, 60, 61, 62, 63, 64, 65, 66, 67,
        68, 69, 70, 71, 72, 73, 74, 75, 76, 77, 78, 79, 80, 81, 82, 83, 84, 85, 86, 87, 88, 89,
        90, 91, 92, 93, 94, 95, 96, 97, 98, 99 :: 8 word]
   in inb A 0 \<and> inb A 48 \<and> (0 :: int) \<le> 48 \<and>
      iSort_moves True True A 0 48 = Inr (B, 9, False) \<and> AscendingThreshold < 9 \<and>
      permuted A B 0 48 \<and>
      candidates A 0 99 18 36 49 63 81 = Inr A \<and> equal_left True A 0 36 49 63 = Inr False \<and>
      partition_main A 0 99 49 99 = Inr (A, 49, False) \<and> skip_pivot 0 99 49 = (50, 48) \<and>
      optimism True A 0 48 50 99 99 False 6 = Inr (Cont True B 6) \<and>
      qSort True True A 0 99 6 = Some (Inr S) \<and> blipsort A 100 = Some (Inr S))"
proof -
  let ?A = "
    [1, 0, 3, 2, 5, 4, 7, 6, 9, 8, 11, 10, 13, 12, 15, 14, 17, 16, 19, 18, 21, 20, 23, 22, 25,
     24, 27, 26, 29, 28, 31, 30, 33, 32, 35, 34, 37, 36, 39, 38, 40, 41, 42, 43, 44, 45, 46,
     47, 48, 49, 50, 51, 52, 53, 54, 55, 56, 57, 58, 59, 60, 61, 62, 63, 64, 65, 66, 67, 68,
     69, 70, 71, 72, 73, 74, 75, 76, 77, 78, 79, 80, 81, 82, 83, 84, 85, 86, 87, 88, 89, 90,
     91, 92, 93, 94, 95, 96, 97, 98, 99 :: 8 word]"
  let ?B = "
    [0, 1, 2, 3, 4, 5, 6, 7, 8, 9, 10, 11, 12, 13, 14, 15, 16, 17, 19, 18, 21, 20, 23, 22, 25,
     24, 27, 26, 29, 28, 31, 30, 33, 32, 35, 34, 37, 36, 39, 38, 40, 41, 42, 43, 44, 45, 46,
     47, 48, 49, 50, 51, 52, 53, 54, 55, 56, 57, 58, 59, 60, 61, 62, 63, 64, 65, 66, 67, 68,
     69, 70, 71, 72, 73, 74, 75, 76, 77, 78, 79, 80, 81, 82, 83, 84, 85, 86, 87, 88, 89, 90,
     91, 92, 93, 94, 95, 96, 97, 98, 99 :: 8 word]"
  let ?S = "
    [0, 1, 2, 3, 4, 5, 6, 7, 8, 9, 10, 11, 12, 13, 14, 15, 16, 17, 18, 19, 20, 21, 22, 23, 24,
     25, 26, 27, 28, 29, 30, 31, 32, 33, 34, 35, 36, 37, 38, 39, 40, 41, 42, 43, 44, 45, 46,
     47, 48, 49, 50, 51, 52, 53, 54, 55, 56, 57, 58, 59, 60, 61, 62, 63, 64, 65, 66, 67, 68,
     69, 70, 71, 72, 73, 74, 75, 76, 77, 78, 79, 80, 81, 82, 83, 84, 85, 86, 87, 88, 89, 90,
     91, 92, 93, 94, 95, 96, 97, 98, 99 :: 8 word]"
  have h: "inb ?A 0" "inb ?A 48" "(0 :: int) \<le> 48" "True \<or> left_bounded ?A 0 48"
    by (simp_all add: inb_def)
  have ev: "iSort_moves True True ?A 0 48 = Inr (?B, 9, False)" by code_simp
  have isr: "iSort True True ?A 0 48 = Inr (?B, False)" by code_simp
  have cand: "candidates ?A 0 99 18 36 49 63 81 = Inr ?A" by code_simp
  have el: "equal_left True ?A 0 36 49 63 = Inr False" by code_simp
  have pm: "partition_main ?A 0 99 49 99 = Inr (?A, 49, False)" by code_simp
  have sk: "skip_pivot 0 99 49 = (50, 48)" by (simp add: skip_pivot_def)
  have bl: "blipsort ?A 100 = Some (Inr ?S)" by code_simp
  have ar: "(99 :: int) = u32 (99 - 0)" "(36 :: int) = 99 div 4 + 99 div 4 div 2"
    "(18 :: int) = 36 div 2" "(49 :: int) = 0 + 99 div 2" "(36 :: int) = 0 + 36"
    "(63 :: int) = 99 - 36" "(18 :: int) = 0 + 18" "(81 :: int) = 99 - 18"
    "True \<or> (InsertionThreshold \<le> (99 :: int) \<and> (0 :: int) \<le> 6)"
    "(99 :: int) div 8 \<le> u32 (48 - 0)" "(99 :: int) div 8 \<le> u32 (99 - 50)"
    by (simp_all add: u32_def)
  note t = iSort_bail_out[OF h, of True]
  from t[THEN conjunct1] obtain b m ok where
    r: "iSort_moves True True ?A 0 48 = Inr (b, m, ok)" and
    m: "\<not> ok \<longrightarrow> True \<and> AscendingThreshold < m" and p: "permuted ?A b 0 48"
    by blast
  from r have bm: "b = ?B" "m = 9" "ok = False" unfolding ev by simp_all
  have m9: "AscendingThreshold < 9" using m unfolding bm by simp
  have pB: "permuted ?A ?B 0 48" using p unfolding bm .
  have f1: "(99 :: int) div 8 \<le> u32 (48 - 0) \<and> (99 :: int) div 8 \<le> u32 (99 - 50) \<and>
      iSort True True ?A 0 48 = Inr (?B, False)"
    by (intro conjI ar isr)
  note opt = t[THEN conjunct2, THEN conjunct2, THEN conjunct2, THEN conjunct1, rule_format,
      OF f1, of 6]
  have hq: "(99 :: int) = u32 (99 - 0) \<and> (36 :: int) = 99 div 4 + 99 div 4 div 2 \<and>
      (18 :: int) = 36 div 2 \<and> (49 :: int) = 0 + 99 div 2 \<and> (36 :: int) = 0 + 36 \<and>
      (63 :: int) = 99 - 36 \<and> (18 :: int) = 0 + 18 \<and> (81 :: int) = 99 - 18 \<and>
      (True \<or> (InsertionThreshold \<le> (99 :: int) \<and> (0 :: int) \<le> 6)) \<and>
      candidates ?A 0 99 18 36 49 63 81 = Inr ?A \<and>
      equal_left True ?A 0 36 49 63 = Inr False \<and>
      partition_main ?A 0 99 49 99 = Inr (?A, 49, False) \<and>
      skip_pivot 0 99 49 = (50, 48)"
    by (intro conjI ar cand el pm sk)
  note q0 = t[THEN conjunct2, THEN conjunct2, THEN conjunct2, THEN conjunct2, THEN conjunct2,
      THEN conjunct2, rule_format, OF hq]
  note q1 = q0[unfolded opt sum.case nxt.case if_True]
  have q: "qSort True True ?A 0 99 6 = Some (Inr ?S)"
    by (subst q1) code_simp
  show ?thesis
    unfolding Let_def by (intro conjI h(1,2,3) ev m9 pB cand el pm sk opt q bl)
qed

section \<open>Inputs on which the sort leaves the array\<close>

text \<open>
  C3. An array of length 0: \<open>cnt - 1\<close> is \<open>4294967295\<close>, the guarded insertion sort
  starts at \<open>a + 1 \<le> a + 4294967295\<close> and reads \<open>a[1]\<close>, outside the (empty) array.
\<close>

theorem blipsort_length_0: "blipsort ([] :: 8 word list) 0 = Some (Inl OutOfBounds)"
  by code_simp

text \<open>
  C1. An array of 88 copies of \<open>INT8_MIN\<close>: the sort does not return the sorted array,
  it reads outside the array.
\<close>

theorem blipsort_88_min: "blipsort (replicate 88 (- 128 :: 8 word)) 88 = Some (Inl OutOfBounds)"
  by code_simp

text \<open>
  C2. The same input at the main partition of the root frame (\<open>low = 0\<close>, \<open>high = 87\<close>,
  \<open>mid = 43\<close>, \<open>p = INT8_MIN\<close>): the scan from the left stops at \<open>l = 0\<close>, the stopper
  \<open>p - 1\<close> written there is \<open>127\<close>, and the scan from the right does not stop at an index
  \<open>\<ge> low\<close>: it reads \<open>a[-1]\<close>.
\<close>

theorem kscan_passes_low:
  "rd (replicate 88 (- 128 :: 8 word)) 43 = min_value \<and>
   (min_value :: 8 word) - 1 = 127 \<and>
   scan_up (\<lambda>v. v <s (min_value :: 8 word)) (replicate 88 (- 128)) (0 - 1) = Inr 0 \<and>
   (\<forall>k. scan_down (\<lambda>v. (min_value :: 8 word) \<le>s v)
          (wr (wr (replicate 88 (- 128)) 43 (rd (replicate 88 (- 128)) 0)) 0 (min_value - 1))
          (87 + 1) \<noteq> Inr k) \<and>
   partition_main (replicate 88 (- 128 :: 8 word)) 0 87 43 87 = Inl OutOfBounds"
proof (intro conjI)
  show "rd (replicate 88 (- 128 :: 8 word)) 43 = min_value"
    by (simp add: rd_def min_value_def)
  show "(min_value :: 8 word) - 1 = 127"
    by (simp add: min_value_def)
  show "scan_up (\<lambda>v. v <s (min_value :: 8 word)) (replicate 88 (- 128)) (0 - 1) = Inr 0"
    unfolding min_value_def by code_simp
  show "partition_main (replicate 88 (- 128 :: 8 word)) 0 87 43 87 = Inl OutOfBounds"
    by code_simp
  have "scan_down (\<lambda>v. (min_value :: 8 word) \<le>s v) A K = Inl OutOfBounds" for A K
    by (rule scan_down_always) (rule min_value_sle)
  then show "\<forall>k. scan_down (\<lambda>v. (min_value :: 8 word) \<le>s v)
      (wr (wr (replicate 88 (- 128)) 43 (rd (replicate 88 (- 128)) 0)) 0 (min_value - 1))
      (87 + 1) \<noteq> Inr k"
    by (simp only: sum.distinct simp_thms)
qed

text \<open>
  C10. The same input at the main partition of the root frame, which the candidate step
  reaches with the array as it was: the stopper \<open>p - 1 = 127\<close> is written at \<open>a[0]\<close>, and
  the scan from the right leaves the array before anything overwrites it. The partition
  has no end at which the subrange would be a permutation of what it was: the array it
  leaves behind holds \<open>127\<close>, which the input does not hold.
\<close>

theorem stopper_never_overwritten:
  "candidates (replicate 88 (- 128 :: 8 word)) 0 87 15 31 43 56 72 = Inr (replicate 88 (- 128)) \<and>
   equal_left True (replicate 88 (- 128 :: 8 word)) 0 31 43 56 = Inr False \<and>
   scan_up (\<lambda>v. v <s rd (replicate 88 (- 128 :: 8 word)) 43) (replicate 88 (- 128)) (0 - 1) = Inr 0 \<and>
   wr (wr (replicate 88 (- 128 :: 8 word)) 43 (rd (replicate 88 (- 128)) 0)) 0
      (rd (replicate 88 (- 128)) 43 - 1) = 127 # replicate 87 (- 128) \<and>
   scan_down (\<lambda>v. rd (replicate 88 (- 128 :: 8 word)) 43 \<le>s v) (127 # replicate 87 (- 128)) (87 + 1)
     = Inl OutOfBounds \<and>
   partition_main (replicate 88 (- 128 :: 8 word)) 0 87 43 87 = Inl OutOfBounds \<and>
   mset (slice (127 # replicate 87 (- 128 :: 8 word)) 0 87) \<noteq>
     mset (slice (replicate 88 (- 128)) 0 87)"
proof (intro conjI)
  show "candidates (replicate 88 (- 128 :: 8 word)) 0 87 15 31 43 56 72 = Inr (replicate 88 (- 128))"
    by code_simp
  show "equal_left True (replicate 88 (- 128 :: 8 word)) 0 31 43 56 = Inr False"
    by code_simp
  show "scan_up (\<lambda>v. v <s rd (replicate 88 (- 128 :: 8 word)) 43) (replicate 88 (- 128)) (0 - 1) = Inr 0"
    by code_simp
  show "wr (wr (replicate 88 (- 128 :: 8 word)) 43 (rd (replicate 88 (- 128)) 0)) 0
      (rd (replicate 88 (- 128)) 43 - 1) = 127 # replicate 87 (- 128)"
    by code_simp
  show "scan_down (\<lambda>v. rd (replicate 88 (- 128 :: 8 word)) 43 \<le>s v) (127 # replicate 87 (- 128)) (87 + 1)
     = Inl OutOfBounds"
    by code_simp
  show "partition_main (replicate 88 (- 128 :: 8 word)) 0 87 43 87 = Inl OutOfBounds"
    by code_simp
  have "(127 :: 8 word) \<in> set (slice (127 # replicate 87 (- 128 :: 8 word)) 0 87)"
    by (simp add: slice_def)
  moreover have "(127 :: 8 word) \<notin> set (slice (replicate 88 (- 128)) 0 87)"
    by (simp add: slice_def)
  ultimately show "mset (slice (127 # replicate 87 (- 128 :: 8 word)) 0 87) \<noteq>
     mset (slice (replicate 88 (- 128)) 0 87)"
    by (metis set_mset_mset)
qed

text \<open>
  C9. With the least value of the type as pivot the condition \<open>*--k >= p\<close> holds of every
  value, whatever the width: the scan from the right never stops, on any array and from
  any start. On 88 copies of \<open>INT8_MIN\<close> the root frame of \<open>qSort\<close> runs into it.
\<close>

theorem kscan_min_pivot_never_stops:
  "scan_down (\<lambda>v. (min_value :: 'a::len word) \<le>s v) a k = Inl OutOfBounds \<and>
   qSort True True (replicate 88 (min_value :: 8 word)) 0 87 6 = Some (Inl OutOfBounds)"
proof
  show "scan_down (\<lambda>v. (min_value :: 'a word) \<le>s v) a k = Inl OutOfBounds"
    by (rule scan_down_always) (rule min_value_sle)
  have "qSort True True (replicate 88 (- 128 :: 8 word)) 0 87 6 = Some (Inl OutOfBounds)"
    by code_simp
  moreover have "(- 128 :: 8 word) = min_value"
    by (simp add: min_value_def)
  ultimately show "qSort True True (replicate 88 (min_value :: 8 word)) 0 87 6 = Some (Inl OutOfBounds)"
    by simp
qed

end
